theory Spec2Isabelle
  imports Main "HOL-Library.Multiset"
begin

section \<open>Data model (the types module: MachineNode, MachineEdge, Problem, ...)\<close>

text \<open>
  The interfaces are those of the types module (in this source tree it is the part
  of src/components/Collapsible.tsx that starts at "Node Types"), the store that of the db
  module (the SupabaseTable class at the end of src/pages/Whiteboard.tsx).

  Strings are HOL strings, dates are milliseconds since the epoch (what getTime returns),
  canvas coordinates are whole numbers. A table of the record store is the list of its rows
  in the order the store returns them. A rejected call to the store throws and aborts the
  action; the rejection that is modelled is that of a node update whose status_id is not
  the id of a row of statuses (supabase/schema.sql: status_id REFERENCES statuses(id)),
  every other call is taken to succeed. uuid() is the i-th value of a supply
  \<open>uuid :: nat \<Rightarrow> string\<close> passed as a parameter, with the index of the next value
  kept in the state.
\<close>

datatype nodeType = Machine | Sop | Tool | Skill | Note

record statusConfig =
  sg_id :: string
  sg_label :: string
  sg_color :: string
  sg_icon :: string
  sg_order :: int

datatype proficiencyLevel = Beginner | Intermediate | Advanced | Expert

record sopStep =
  st_id :: string
  st_text :: string
  st_done :: bool
  st_order :: int
  st_linkedNodeId :: "string option"

record machineNode =
  n_id :: string
  n_parentId :: string
  n_type :: nodeType
  n_label :: string
  n_description :: string
  n_statusId :: string
  n_position :: "int \<times> int"
  n_goal :: string
  n_bottleneck :: string
  n_notes :: string
  n_steps :: "sopStep list"
  n_toolUrl :: string
  n_proficiency :: "proficiencyLevel option"
  n_hasChildren :: bool
  n_createdAt :: int
  n_updatedAt :: int

datatype edgeRelationship = Feeds | Depends | Triggers | Supports | Custom

record machineEdge =
  e_id :: string
  e_parentId :: string
  e_source :: string
  e_target :: string
  e_label :: "string option"
  e_relationship :: edgeRelationship

record victoryCondition =
  vc_id :: string
  vc_machineNodeId :: string
  vc_label :: string
  vc_target :: string
  vc_current :: string
  vc_met :: bool
  vc_order :: int

record statusChange =
  sc_id :: string
  sc_machineNodeId :: string
  sc_fromStatusId :: string
  sc_toStatusId :: string
  sc_changedAt :: int

datatype problemSeverity = PCritical | PHigh | PMedium | PLow

datatype problemStatus = Open | Diagnosing | Planned | Fixing | Resolved

record problem =
  p_id :: string
  p_machineNodeId :: string
  p_title :: string
  p_description :: string
  p_severity :: problemSeverity
  p_status :: problemStatus
  p_diagnosis :: string
  p_plan :: string
  p_createdAt :: int
  p_resolvedAt :: "int option"

record capture =
  c_id :: string
  c_text :: string
  c_machineId :: string
  c_processed :: bool
  c_createdAt :: int

datatype eventType =
  StatusChangeEv | ProblemLogged | ProblemResolved | ProblemUpdated | MetricUpdated
  | MetricSnapshot | StepCompleted | StepUncompleted | NoteUpdated | NodeCreated
  | NodeDeleted | CaptureProcessed

record machineEvent =
  ev_id :: string
  ev_nodeId :: string
  ev_eventType :: eventType
  ev_timestamp :: int
  ev_previousValue :: "string option"
  ev_newValue :: "string option"
  ev_metadata :: "string option"

text \<open>
  The db object: one table per collection the operations below touch. Of the table methods,
  where(f).equals(v) and filter(fn) select rows, toArray and count read the selection,
  delete removes it, get(id) reads the row with the id, add appends a row and update
  changes the rows with the id.
\<close>

record db =
  statuses :: "statusConfig list"
  nodes :: "machineNode list"
  edges :: "machineEdge list"
  problems :: "problem list"
  victoryConditions :: "victoryCondition list"
  statusChanges :: "statusChange list"
  captures :: "capture list"
  events :: "machineEvent list"

section \<open>Severity classifier (src/hooks/useDashboardScan.ts: getSeverity)\<close>

datatype severity = Normal | Amber | Red | Critical

record thresholds =
  amber :: int
  red :: int
  critical :: int

text \<open>ATTENTION_THRESHOLDS of the types module (the four profiles the scanner uses).\<close>

definition problemThresholds :: thresholds where
  "problemThresholds = \<lparr>amber = 3, red = 7, critical = 14\<rparr>"

definition stalenessThresholds :: thresholds where
  "stalenessThresholds = \<lparr>amber = 7, red = 14, critical = 21\<rparr>"

definition captureThresholds :: thresholds where
  "captureThresholds = \<lparr>amber = 1, red = 2, critical = 3\<rparr>"

definition blockedThresholds :: thresholds where
  "blockedThresholds = \<lparr>amber = 3, red = 7, critical = 14\<rparr>"

text \<open>The day counts are whole numbers (daysSince applies Math.floor), modelled as int.\<close>

definition getSeverity :: "int \<Rightarrow> thresholds \<Rightarrow> severity" where
  "getSeverity days t =
     (if days \<ge> critical t then Critical
      else if days \<ge> red t then Red
      else if days \<ge> amber t then Amber
      else Normal)"

text \<open>The tier order critical > red > amber > normal, and the cutoff of each tier.\<close>

fun tierRank :: "severity \<Rightarrow> nat" where
  "tierRank Normal = 0"
| "tierRank Amber = 1"
| "tierRank Red = 2"
| "tierRank Critical = 3"

fun meetsCutoff :: "int \<Rightarrow> thresholds \<Rightarrow> severity \<Rightarrow> bool" where
  "meetsCutoff days t Normal = True"
| "meetsCutoff days t Amber = (days \<ge> amber t)"
| "meetsCutoff days t Red = (days \<ge> red t)"
| "meetsCutoff days t Critical = (days \<ge> critical t)"

section \<open>Attention scanner (src/hooks/useDashboardScan.ts: runScan)\<close>

text \<open>
  daysSince of the types module: Math.floor((Date.now() - date) / 86400000). The clock is read once
  for a scan and passed as \<open>now\<close>; \<open>div\<close> on int rounds down, as Math.floor does.
\<close>

definition daysSince :: "int \<Rightarrow> int \<Rightarrow> int" where
  "daysSince now date = (now - date) div (1000 * 60 * 60 * 24)"

text \<open>Template literals print a day count in decimal.\<close>

definition digitChar :: "nat \<Rightarrow> char" where
  "digitChar n = ''0123456789'' ! (n mod 10)"

function showNat :: "nat \<Rightarrow> string" where
  "showNat n = (if n < 10 then [digitChar n] else showNat (n div 10) @ [digitChar n])"
  by pat_completeness auto
termination
  by (relation "measure (\<lambda>n. n)") auto

declare showNat.simps [simp del]

definition showInt :: "int \<Rightarrow> string" where
  "showInt i = (if i < 0 then CHR ''-'' # showNat (nat (- i)) else showNat (nat i))"

text \<open>The JavaScript \<open>s || d\<close> on strings: the empty string is falsy.\<close>

definition orElse :: "string \<Rightarrow> string \<Rightarrow> string" where
  "orElse s d = (if s = [] then d else s)"

datatype attentionType = StaleProblem | StaleNode | UnmetVc | BlockedMachine | AgingCapture

record attentionItem =
  a_id :: string
  a_type :: attentionType
  a_title :: string
  a_subtitle :: string
  a_nodeId :: string
  a_machineId :: string
  a_severity :: severity
  a_ageDays :: int
  a_link :: string

text \<open>new Map(allNodes.map(n => [n.id, n])): a later row with the same id replaces an earlier one.\<close>

definition nodeMapOf :: "machineNode list \<Rightarrow> (string \<rightharpoonup> machineNode)" where
  "nodeMapOf allNodes = map_of (rev (map (\<lambda>n. (n_id n, n)) allNodes))"

text \<open>
  findRootMachine: the while loop climbs parentId pointers with no bound and no visited set,
  so it is a partial function: the value None stands for a loop that never exits.
\<close>

partial_function (option) climb :: "(string \<rightharpoonup> machineNode) \<Rightarrow> machineNode \<Rightarrow> machineNode option" where
  "climb nodeMap n =
     (if n_parentId n \<noteq> [] then
        (case nodeMap (n_parentId n) of
           None \<Rightarrow> Some n
         | Some parent \<Rightarrow> climb nodeMap parent)
      else Some n)"

definition findRootMachine :: "(string \<rightharpoonup> machineNode) \<Rightarrow> string \<Rightarrow> string option" where
  "findRootMachine nodeMap nodeId =
     (case nodeMap nodeId of
        None \<Rightarrow> Some nodeId
      | Some n \<Rightarrow> map_option (\<lambda>r. orElse (n_id r) nodeId) (climb nodeMap n))"

text \<open>
  Array.prototype.sort with a comparator. The sort is stable (ECMAScript 2019), and for a
  consistent comparator its result is the one stable arrangement; it is computed here by
  insertion from the right, an element going in front of the first element it does not
  compare greater than.
\<close>

fun insertBy :: "('a \<Rightarrow> 'a \<Rightarrow> int) \<Rightarrow> 'a \<Rightarrow> 'a list \<Rightarrow> 'a list" where
  "insertBy cmp x [] = [x]"
| "insertBy cmp x (y # ys) = (if cmp x y \<le> 0 then x # y # ys else y # insertBy cmp x ys)"

definition sortBy :: "('a \<Rightarrow> 'a \<Rightarrow> int) \<Rightarrow> 'a list \<Rightarrow> 'a list" where
  "sortBy cmp xs = foldr (insertBy cmp) xs []"

definition machineLink :: "string \<Rightarrow> string" where
  "machineLink machineId = ''/machine/'' @ machineId @ ''?parent='' @ machineId"

text \<open>1. Stale problems: the loop over the open problems.\<close>

fun staleProblems :: "int \<Rightarrow> (string \<rightharpoonup> machineNode) \<Rightarrow> problem list \<Rightarrow> attentionItem list option" where
  "staleProblems now nodeMap [] = Some []"
| "staleProblems now nodeMap (p # ps) =
     (let age = daysSince now (p_createdAt p);
          severity = getSeverity age problemThresholds
      in if severity = Normal then staleProblems now nodeMap ps
         else
           (case findRootMachine nodeMap (p_machineNodeId p) of
              None \<Rightarrow> None
            | Some machineId \<Rightarrow>
                map_option
                  (Cons \<lparr>a_id = ''prob-'' @ p_id p,
                         a_type = StaleProblem,
                         a_title = orElse (p_title p) ''Untitled problem'',
                         a_subtitle = ''Open '' @ showInt age @ ''d on '' @
                            (case nodeMap (p_machineNodeId p) of
                               None \<Rightarrow> ''Unknown''
                             | Some node \<Rightarrow> orElse (n_label node) ''Unknown''),
                         a_nodeId = p_machineNodeId p,
                         a_machineId = machineId,
                         a_severity = severity,
                         a_ageDays = age,
                         a_link = machineLink machineId\<rparr>)
                  (staleProblems now nodeMap ps)))"

text \<open>2. Blocked machines: the most recent change to blocked dates the block, else updatedAt.\<close>

definition lastBlocked :: "statusChange list \<Rightarrow> machineNode \<Rightarrow> statusChange option" where
  "lastBlocked allStatusChanges node =
     (case sortBy (\<lambda>a b. sc_changedAt b - sc_changedAt a)
             (filter (\<lambda>sc. sc_machineNodeId sc = n_id node \<and> sc_toStatusId sc = ''blocked'')
                allStatusChanges) of
        [] \<Rightarrow> None
      | sc # _ \<Rightarrow> Some sc)"

definition blockedAge :: "int \<Rightarrow> statusChange list \<Rightarrow> machineNode \<Rightarrow> int" where
  "blockedAge now allStatusChanges node =
     (case lastBlocked allStatusChanges node of
        Some sc \<Rightarrow> daysSince now (sc_changedAt sc)
      | None \<Rightarrow> daysSince now (n_updatedAt node))"

fun blockedMachines ::
  "int \<Rightarrow> (string \<rightharpoonup> machineNode) \<Rightarrow> statusChange list \<Rightarrow> machineNode list \<Rightarrow> attentionItem list option" where
  "blockedMachines now nodeMap allStatusChanges [] = Some []"
| "blockedMachines now nodeMap allStatusChanges (node # ns) =
     (let age = blockedAge now allStatusChanges node;
          severity = getSeverity age blockedThresholds
      in if severity = Normal then blockedMachines now nodeMap allStatusChanges ns
         else
           (case findRootMachine nodeMap (n_id node) of
              None \<Rightarrow> None
            | Some machineId \<Rightarrow>
                map_option
                  (Cons \<lparr>a_id = ''blocked-'' @ n_id node,
                         a_type = BlockedMachine,
                         a_title = n_label node,
                         a_subtitle = ''Blocked for '' @ showInt age @ ''d'',
                         a_nodeId = n_id node,
                         a_machineId = machineId,
                         a_severity = severity,
                         a_ageDays = age,
                         a_link = machineLink machineId\<rparr>)
                  (blockedMachines now nodeMap allStatusChanges ns)))"

text \<open>
  3. Unmet victory conditions, aged by the owning node's updatedAt. (The dash in the
  subtitle is written in ASCII.)
\<close>

fun unmetVictoryConditions ::
  "int \<Rightarrow> (string \<rightharpoonup> machineNode) \<Rightarrow> victoryCondition list \<Rightarrow> attentionItem list option" where
  "unmetVictoryConditions now nodeMap [] = Some []"
| "unmetVictoryConditions now nodeMap (vc # vcs) =
     (case nodeMap (vc_machineNodeId vc) of
        None \<Rightarrow> unmetVictoryConditions now nodeMap vcs
      | Some node \<Rightarrow>
          (let age = daysSince now (n_updatedAt node);
               severity = getSeverity age stalenessThresholds
           in if severity = Normal then unmetVictoryConditions now nodeMap vcs
              else
                (case findRootMachine nodeMap (vc_machineNodeId vc) of
                   None \<Rightarrow> None
                 | Some machineId \<Rightarrow>
                     map_option
                       (Cons \<lparr>a_id = ''vc-'' @ vc_id vc,
                              a_type = UnmetVc,
                              a_title = orElse (vc_label vc) ''Unnamed condition'',
                              a_subtitle = ''Unmet on '' @ n_label node @ '' - last updated '' @
                                 showInt age @ ''d ago'',
                              a_nodeId = vc_machineNodeId vc,
                              a_machineId = machineId,
                              a_severity = severity,
                              a_ageDays = age,
                              a_link = machineLink machineId\<rparr>)
                       (unmetVictoryConditions now nodeMap vcs))))"

text \<open>4. Stale nodes: the loop over the root machines.\<close>

definition staleNodeItem :: "int \<Rightarrow> machineNode \<Rightarrow> attentionItem" where
  "staleNodeItem now node =
     (let age = daysSince now (n_updatedAt node)
      in \<lparr>a_id = ''stale-'' @ n_id node,
          a_type = StaleNode,
          a_title = n_label node,
          a_subtitle = ''No activity for '' @ showInt age @ ''d'',
          a_nodeId = n_id node,
          a_machineId = n_id node,
          a_severity = getSeverity age stalenessThresholds,
          a_ageDays = age,
          a_link = machineLink (n_id node)\<rparr>)"

fun staleNodes :: "int \<Rightarrow> machineNode list \<Rightarrow> attentionItem list" where
  "staleNodes now [] = []"
| "staleNodes now (node # ns) =
     (let age = daysSince now (n_updatedAt node);
          severity = getSeverity age stalenessThresholds
      in if severity = Normal then staleNodes now ns
         else if n_statusId node = ''blocked'' then staleNodes now ns
         else staleNodeItem now node # staleNodes now ns)"

text \<open>5. Aging captures: one aggregate item, aged by the oldest unprocessed capture.\<close>

definition agingCaptures :: "int \<Rightarrow> capture list \<Rightarrow> attentionItem list" where
  "agingCaptures now allCaptures =
     (case map (\<lambda>c. daysSince now (c_createdAt c)) (filter (\<lambda>c. \<not> c_processed c) allCaptures) of
        [] \<Rightarrow> []
      | a # as \<Rightarrow>
          (let oldestAge = fold max as a;
               severity = getSeverity oldestAge captureThresholds;
               n = Suc (length as)
           in if severity \<noteq> Normal then
                [\<lparr>a_id = ''captures'',
                  a_type = AgingCapture,
                  a_title = showNat n @ '' unprocessed capture'' @ (if n > 1 then ''s'' else ''''),
                  a_subtitle = ''Oldest: '' @ showInt oldestAge @ ''d ago'',
                  a_nodeId = '''',
                  a_machineId = '''',
                  a_severity = severity,
                  a_ageDays = oldestAge,
                  a_link = ''/inbox''\<rparr>]
              else []))"

text \<open>The ranking: severityOrder, then the older item first.\<close>

fun severityOrder :: "severity \<Rightarrow> int" where
  "severityOrder Critical = 0"
| "severityOrder Red = 1"
| "severityOrder Amber = 2"
| "severityOrder Normal = 3"

definition compareItems :: "attentionItem \<Rightarrow> attentionItem \<Rightarrow> int" where
  "compareItems a b =
     (let so = severityOrder (a_severity a) - severityOrder (a_severity b)
      in if so \<noteq> 0 then so else a_ageDays b - a_ageDays a)"

text \<open>
  The order the comparator sorts by, in the words of the ranking rule: the lower severity
  rank first (critical, then red, then amber), and within one severity the larger ageDays
  first.
\<close>

definition ranksBefore :: "attentionItem \<Rightarrow> attentionItem \<Rightarrow> bool" where
  "ranksBefore a b \<longleftrightarrow>
     severityOrder (a_severity a) < severityOrder (a_severity b)
     \<or> (a_severity a = a_severity b \<and> a_ageDays b \<le> a_ageDays a)"

text \<open>The results array before the sort: the five detectors push in this order.\<close>

definition scanResults :: "int \<Rightarrow> db \<Rightarrow> attentionItem list option" where
  "scanResults now d =
     (let allProblems = problems d;
          allNodes = nodes d;
          allVCs = victoryConditions d;
          allCaptures = filter (\<lambda>c. \<not> c_processed c) (captures d);
          allStatusChanges = statusChanges d;
          nodeMap = nodeMapOf allNodes
      in case staleProblems now nodeMap (filter (\<lambda>p. p_status p \<noteq> Resolved) allProblems) of
           None \<Rightarrow> None
         | Some r1 \<Rightarrow>
        (case blockedMachines now nodeMap allStatusChanges
                (filter (\<lambda>n. n_statusId n = ''blocked'') allNodes) of
           None \<Rightarrow> None
         | Some r2 \<Rightarrow>
        (case unmetVictoryConditions now nodeMap (filter (\<lambda>vc. \<not> vc_met vc) allVCs) of
           None \<Rightarrow> None
         | Some r3 \<Rightarrow>
             Some (r1 @ r2 @ r3
                   @ staleNodes now (filter (\<lambda>n. n_parentId n = [] \<and> n_type n = Machine) allNodes)
                   @ agingCaptures now allCaptures))))"

definition runScan :: "int \<Rightarrow> db \<Rightarrow> attentionItem list option" where
  "runScan now d = map_option (sortBy compareItems) (scanResults now d)"

section \<open>Breadcrumb trail (src/pages/Whiteboard.tsx: build, in the breadcrumbs effect)\<close>

text \<open>
  The walk from the current canvas level up to the root. It keeps the set of the ids it
  has visited and stops at an id it has seen, at an id no row has, and at the empty
  parentId of a root (\<open>node.parentId || null\<close>); so it is a total function, by the number
  of node ids not yet visited.
\<close>

record breadcrumbSegment =
  bc_id :: "string option"
  bc_label :: string

function breadcrumbWalk ::
  "machineNode list \<Rightarrow> string set \<Rightarrow> string option \<Rightarrow> breadcrumbSegment list \<Rightarrow> breadcrumbSegment list" where
  "breadcrumbWalk ns visited cid trail =
     (case cid of
        None \<Rightarrow> trail
      | Some c \<Rightarrow>
          if c = [] \<or> c \<in> visited then trail
          else
            (case find (\<lambda>n. n_id n = c) ns of
               None \<Rightarrow> trail
             | Some node \<Rightarrow>
                 breadcrumbWalk ns (insert c visited)
                   (if n_parentId node = [] then None else Some (n_parentId node))
                   (\<lparr>bc_id = Some (n_id node), bc_label = n_label node\<rparr> # trail)))"
  by pat_completeness auto
termination
proof (relation "measure (\<lambda>(ns, visited, cid, trail). card (n_id ` set ns - visited))")
  show "wf (measure (\<lambda>(ns, visited, cid, trail). card (n_id ` set ns - visited)))"
    by simp
next
  fix ns :: "machineNode list" and visited :: "string set" and cid :: "string option"
    and trail :: "breadcrumbSegment list" and c :: string and node :: machineNode
  assume "cid = Some c" and nv: "\<not> (c = [] \<or> c \<in> visited)"
    and f: "find (\<lambda>n. n_id n = c) ns = Some node"
  from f have "node \<in> set ns" and "n_id node = c"
    by (auto simp add: find_Some_iff)
  then have "c \<in> n_id ` set ns - visited" using nv by auto
  then have "card (n_id ` set ns - insert c visited) < card (n_id ` set ns - visited)"
    by (metis Diff_insert card_Diff1_less finite_Diff finite_imageI finite_set)
  then show "((ns, insert c visited,
               if n_parentId node = [] then None else Some (n_parentId node),
               \<lparr>bc_id = Some (n_id node), bc_label = n_label node\<rparr> # trail),
              (ns, visited, cid, trail))
             \<in> measure (\<lambda>(ns, visited, cid, trail). card (n_id ` set ns - visited))"
    by simp
qed

declare breadcrumbWalk.simps [simp del]

definition buildBreadcrumbs :: "machineNode list \<Rightarrow> string option \<Rightarrow> breadcrumbSegment list" where
  "buildBreadcrumbs ns parentId =
     (let trail = breadcrumbWalk ns {} parentId []
      in if length trail > 0 then \<lparr>bc_id = None, bc_label = ''Machines''\<rparr> # trail else trail)"

section \<open>Cascading delete (prepareDelete, confirmDelete; handleDeleteNode)\<close>

text \<open>
  prepareDelete with countRecursive and confirmDelete with deleteRecursive are the
  dashboard's (in this source tree, in src/components/Collapsible.tsx);
  handleDeleteNode is the whiteboard's (src/pages/Whiteboard.tsx).
\<close>

record deleteSummary =
  s_nodes :: nat
  s_sops :: nat
  s_tools :: nat
  s_skills :: nat
  s_notes :: nat
  s_problems :: nat
  s_edges :: nat

text \<open>The if-chain on child.type inside the loop of countRecursive.\<close>

fun countType :: "nodeType \<Rightarrow> deleteSummary \<Rightarrow> deleteSummary" where
  "countType Machine totals = totals\<lparr>s_nodes := s_nodes totals + 1\<rparr>"
| "countType Sop totals = totals\<lparr>s_sops := s_sops totals + 1\<rparr>"
| "countType Tool totals = totals\<lparr>s_tools := s_tools totals + 1\<rparr>"
| "countType Skill totals = totals\<lparr>s_skills := s_skills totals + 1\<rparr>"
| "countType Note totals = totals\<lparr>s_notes := s_notes totals + 1\<rparr>"

definition addTotals :: "deleteSummary \<Rightarrow> deleteSummary \<Rightarrow> deleteSummary" where
  "addTotals totals childTotals =
     \<lparr>s_nodes = s_nodes totals + s_nodes childTotals,
      s_sops = s_sops totals + s_sops childTotals,
      s_tools = s_tools totals + s_tools childTotals,
      s_skills = s_skills totals + s_skills childTotals,
      s_notes = s_notes totals + s_notes childTotals,
      s_problems = s_problems totals + s_problems childTotals,
      s_edges = s_edges totals + s_edges childTotals\<rparr>"

text \<open>
  countRecursive and deleteRecursive recurse through the children with no bound, so a
  parentId cycle makes them run forever. The first argument is fuel, the recursion depth
  allowed: None is a run this depth does not finish.
\<close>

fun countRecursive :: "nat \<Rightarrow> db \<Rightarrow> string \<Rightarrow> deleteSummary option"
  and countChildren :: "nat \<Rightarrow> db \<Rightarrow> machineNode list \<Rightarrow> deleteSummary \<Rightarrow> deleteSummary option" where
  "countRecursive 0 d nodeId = None"
| "countRecursive (Suc k) d nodeId =
     countChildren k d (filter (\<lambda>n. n_parentId n = nodeId) (nodes d))
       \<lparr>s_nodes = 0, s_sops = 0, s_tools = 0, s_skills = 0, s_notes = 0,
        s_problems = length (filter (\<lambda>p. p_machineNodeId p = nodeId) (problems d)),
        s_edges = length (filter (\<lambda>e. e_parentId e = nodeId) (edges d))\<rparr>"
| "countChildren k d [] totals = Some totals"
| "countChildren k d (child # cs) totals =
     (case countRecursive k d (n_id child) of
        None \<Rightarrow> None
      | Some childTotals \<Rightarrow> countChildren k d cs (addTotals (countType (n_type child) totals) childTotals))"


text \<open>The five deletes that follow the loop over the children in deleteRecursive.\<close>

definition deleteOwnRows :: "string \<Rightarrow> db \<Rightarrow> db" where
  "deleteOwnRows nodeId d =
     (let d1 = d\<lparr>edges := filter (\<lambda>e. e_parentId e \<noteq> nodeId) (edges d)\<rparr>;
          d2 = d1\<lparr>problems := filter (\<lambda>p. p_machineNodeId p \<noteq> nodeId) (problems d1)\<rparr>;
          d3 = d2\<lparr>victoryConditions := filter (\<lambda>v. vc_machineNodeId v \<noteq> nodeId) (victoryConditions d2)\<rparr>;
          d4 = d3\<lparr>statusChanges := filter (\<lambda>c. sc_machineNodeId c \<noteq> nodeId) (statusChanges d3)\<rparr>
      in d4\<lparr>nodes := filter (\<lambda>n. n_id n \<noteq> nodeId) (nodes d4)\<rparr>)"

fun deleteRecursive :: "nat \<Rightarrow> string \<Rightarrow> db \<Rightarrow> db option"
  and deleteChildren :: "nat \<Rightarrow> machineNode list \<Rightarrow> db \<Rightarrow> db option" where
  "deleteRecursive 0 nodeId d = None"
| "deleteRecursive (Suc k) nodeId d =
     (case deleteChildren k (filter (\<lambda>n. n_parentId n = nodeId) (nodes d)) d of
        None \<Rightarrow> None
      | Some d1 \<Rightarrow> Some (deleteOwnRows nodeId d1))"
| "deleteChildren k [] d = Some d"
| "deleteChildren k (child # cs) d =
     (case deleteRecursive k (n_id child) d of
        None \<Rightarrow> None
      | Some d1 \<Rightarrow> deleteChildren k cs d1)"

text \<open>confirmDelete on the delete target chosen by prepareDelete.\<close>

definition confirmDelete :: "nat \<Rightarrow> machineNode \<Rightarrow> db \<Rightarrow> db option" where
  "confirmDelete k deleteTarget d = deleteRecursive k (n_id deleteTarget) d"

text \<open>
  The nodes of a canvas, on which the context menu with Delete opens: the effect
  "Load data" of the whiteboard reads the rows whose parentId is the level shown, and
  loads nothing when parentId is empty.
\<close>

definition canvasNodes :: "string \<Rightarrow> db \<Rightarrow> machineNode list" where
  "canvasNodes parentId d =
     (if parentId = [] then [] else filter (\<lambda>n. n_parentId n = parentId) (nodes d))"

text \<open>
  handleDeleteNode of the whiteboard. \<open>db.edges.filter(fn).delete()\<close> reads the table,
  keeps the rows fn accepts and deletes each by its id. The node-deleted event takes the
  next uuid.
\<close>

definition handleDeleteNode :: "(nat \<Rightarrow> string) \<Rightarrow> int \<Rightarrow> string \<Rightarrow> db \<times> nat \<Rightarrow> db \<times> nat" where
  "handleDeleteNode uuid now nodeId st =
     (let d = fst st;
          children = filter (\<lambda>n. n_parentId n = nodeId) (nodes d);
          d1 = fold (\<lambda>c d'. d'\<lparr>nodes := filter (\<lambda>n. n_id n \<noteq> n_id c) (nodes d')\<rparr>) children d;
          toDelete = filter (\<lambda>e. e_source e = nodeId \<or> e_target e = nodeId) (edges d1);
          d2 = fold (\<lambda>item d'. d'\<lparr>edges := filter (\<lambda>e. e_id e \<noteq> e_id item) (edges d')\<rparr>) toDelete d1;
          d3 = d2\<lparr>problems := filter (\<lambda>p. p_machineNodeId p \<noteq> nodeId) (problems d2)\<rparr>;
          d4 = d3\<lparr>victoryConditions := filter (\<lambda>v. vc_machineNodeId v \<noteq> nodeId) (victoryConditions d3)\<rparr>;
          d5 = d4\<lparr>nodes := filter (\<lambda>n. n_id n \<noteq> nodeId) (nodes d4)\<rparr>;
          d6 = d5\<lparr>events := events d5 @
                 [\<lparr>ev_id = uuid (snd st), ev_nodeId = nodeId, ev_eventType = NodeDeleted,
                   ev_timestamp = now, ev_previousValue = None, ev_newValue = None,
                   ev_metadata = None\<rparr>]\<rparr>
      in (d6, Suc (snd st)))"

text \<open>
  The ids a cascading delete of nodeId has to clear from a store: nodeId and the ids of
  its transitive descendants, found by closing the children-of relation on the node table.
\<close>

definition childRel :: "db \<Rightarrow> (string \<times> string) set" where
  "childRel d = {(n_parentId n, n_id n) | n. n \<in> set (nodes d)}"

definition subtreeIds :: "db \<Rightarrow> string \<Rightarrow> string set" where
  "subtreeIds d nodeId = {x. (nodeId, x) \<in> (childRel d)\<^sup>*}"

text \<open>
  For the proofs: the rows the traversal of countRecursive and deleteRecursive visits below
  nodeId, in the order it visits them, with the same fuel; and a store without the rows
  that belong to a set of node ids.
\<close>

fun descendantRows :: "nat \<Rightarrow> db \<Rightarrow> string \<Rightarrow> machineNode list option"
  and descendantRowsOf :: "nat \<Rightarrow> db \<Rightarrow> machineNode list \<Rightarrow> machineNode list option" where
  "descendantRows 0 d nodeId = None"
| "descendantRows (Suc k) d nodeId = descendantRowsOf k d (filter (\<lambda>n. n_parentId n = nodeId) (nodes d))"
| "descendantRowsOf k d [] = Some []"
| "descendantRowsOf k d (child # cs) =
     (case descendantRows k d (n_id child) of
        None \<Rightarrow> None
      | Some below \<Rightarrow>
          (case descendantRowsOf k d cs of
             None \<Rightarrow> None
           | Some rest \<Rightarrow> Some (child # below @ rest)))"

definition removeIds :: "string set \<Rightarrow> db \<Rightarrow> db" where
  "removeIds S d =
     d\<lparr>nodes := filter (\<lambda>n. n_id n \<notin> S) (nodes d),
       edges := filter (\<lambda>e. e_parentId e \<notin> S) (edges d),
       problems := filter (\<lambda>p. p_machineNodeId p \<notin> S) (problems d),
       victoryConditions := filter (\<lambda>v. vc_machineNodeId v \<notin> S) (victoryConditions d),
       statusChanges := filter (\<lambda>c. sc_machineNodeId c \<notin> S) (statusChanges d)\<rparr>"

definition downClosed :: "db \<Rightarrow> string set \<Rightarrow> bool" where
  "downClosed d S \<longleftrightarrow> (\<forall>n \<in> set (nodes d). n_parentId n \<in> S \<longrightarrow> n_id n \<in> S)"




definition ownEdges :: "db \<Rightarrow> string \<Rightarrow> nat" where
  "ownEdges d nodeId = length (filter (\<lambda>e. e_parentId e = nodeId) (edges d))"

section \<open>Subtree duplication (duplicateMachine, cloneRecursive)\<close>

text \<open>The dashboard's duplicateMachine (in this source tree, in src/components/Collapsible.tsx).\<close>

text \<open>
  The state cloneRecursive works on: the store, the idMap of duplicateMachine, and the
  index of the next uuid.
\<close>

record cloneState =
  cs_db :: db
  cs_idMap :: "string \<rightharpoonup> string"
  cs_next :: nat

text \<open>node.steps.map(s => ({ ...s, id: uuid(), done: false })): one uuid per step, in order.\<close>

fun cloneSteps :: "(nat \<Rightarrow> string) \<Rightarrow> nat \<Rightarrow> sopStep list \<Rightarrow> sopStep list" where
  "cloneSteps uuid i [] = []"
| "cloneSteps uuid i (s # ss) = s\<lparr>st_id := uuid i, st_done := False\<rparr> # cloneSteps uuid (Suc i) ss"

text \<open>\<open>idMap.get(x) || x\<close>: the translation when the map has one (and it is not empty), else x itself.\<close>

definition translateId :: "(string \<rightharpoonup> string) \<Rightarrow> string \<Rightarrow> string" where
  "translateId idMap x = (case idMap x of None \<Rightarrow> x | Some y \<Rightarrow> orElse y x)"

definition cloneEdge :: "(string \<rightharpoonup> string) \<Rightarrow> string \<Rightarrow> string \<Rightarrow> machineEdge \<Rightarrow> machineEdge" where
  "cloneEdge idMap newId freshId edge =
     edge\<lparr>e_id := freshId, e_parentId := newId,
          e_source := translateId idMap (e_source edge),
          e_target := translateId idMap (e_target edge)\<rparr>"

text \<open>The loop over the edges of this level: every edge of the list is added again.\<close>

fun cloneEdgeRows :: "(nat \<Rightarrow> string) \<Rightarrow> string \<Rightarrow> machineEdge list \<Rightarrow> cloneState \<Rightarrow> cloneState" where
  "cloneEdgeRows uuid newId [] s = s"
| "cloneEdgeRows uuid newId (edge # es) s =
     cloneEdgeRows uuid newId es
       (s\<lparr>cs_db := (cs_db s)\<lparr>edges := edges (cs_db s) @ [cloneEdge (cs_idMap s) newId (uuid (cs_next s)) edge]\<rparr>,
          cs_next := Suc (cs_next s)\<rparr>)"

definition cloneEdges :: "(nat \<Rightarrow> string) \<Rightarrow> string \<Rightarrow> string \<Rightarrow> cloneState \<Rightarrow> cloneState" where
  "cloneEdges uuid nodeId newId s =
     cloneEdgeRows uuid newId (filter (\<lambda>e. e_parentId e = nodeId) (edges (cs_db s))) s"

fun cloneVictoryConditionRows ::
  "(nat \<Rightarrow> string) \<Rightarrow> string \<Rightarrow> victoryCondition list \<Rightarrow> cloneState \<Rightarrow> cloneState" where
  "cloneVictoryConditionRows uuid newId [] s = s"
| "cloneVictoryConditionRows uuid newId (vc # vcs) s =
     cloneVictoryConditionRows uuid newId vcs
       (s\<lparr>cs_db := (cs_db s)\<lparr>victoryConditions := victoryConditions (cs_db s) @
                       [vc\<lparr>vc_id := uuid (cs_next s), vc_machineNodeId := newId\<rparr>]\<rparr>,
          cs_next := Suc (cs_next s)\<rparr>)"

definition cloneVictoryConditions :: "(nat \<Rightarrow> string) \<Rightarrow> string \<Rightarrow> string \<Rightarrow> cloneState \<Rightarrow> cloneState" where
  "cloneVictoryConditions uuid nodeId newId s =
     cloneVictoryConditionRows uuid newId
       (filter (\<lambda>v. vc_machineNodeId v = nodeId) (victoryConditions (cs_db s))) s"

text \<open>The clone row of a node: the object literal of cloneRecursive; the steps take the uuids after newId.\<close>

definition cloneNode :: "(nat \<Rightarrow> string) \<Rightarrow> int \<Rightarrow> nat \<Rightarrow> string \<Rightarrow> machineNode \<Rightarrow> machineNode" where
  "cloneNode uuid now i newParentId node =
     node\<lparr>n_id := uuid i,
          n_parentId := newParentId,
          n_label := (if newParentId = [] then n_label node @ '' (Copy)'' else n_label node),
          n_createdAt := now,
          n_updatedAt := now,
          n_steps := cloneSteps uuid (Suc i) (n_steps node)\<rparr>"

text \<open>
  The first part of cloneRecursive on a node that exists: newId is the next uuid, the
  idMap records it, and the clone row is added.
\<close>

definition addClone :: "(nat \<Rightarrow> string) \<Rightarrow> int \<Rightarrow> string \<Rightarrow> string \<Rightarrow> machineNode \<Rightarrow> cloneState \<Rightarrow> cloneState" where
  "addClone uuid now nodeId newParentId node s =
     s\<lparr>cs_idMap := (cs_idMap s)(nodeId \<mapsto> uuid (cs_next s)),
       cs_next := Suc (cs_next s) + length (n_steps node),
       cs_db := (cs_db s)\<lparr>nodes := nodes (cs_db s) @ [cloneNode uuid now (cs_next s) newParentId node]\<rparr>\<rparr>"

text \<open>
  cloneRecursive recurses through the children with no bound; the third argument is fuel,
  as for deleteRecursive. db.nodes.get is the first row with the id. The children are
  read after the clone row is added, the edges and victory conditions of the level after
  the children are cloned.
\<close>

fun cloneRecursive :: "(nat \<Rightarrow> string) \<Rightarrow> int \<Rightarrow> nat \<Rightarrow> string \<Rightarrow> string \<Rightarrow> cloneState \<Rightarrow> cloneState option"
  and cloneChildren :: "(nat \<Rightarrow> string) \<Rightarrow> int \<Rightarrow> nat \<Rightarrow> machineNode list \<Rightarrow> string \<Rightarrow> cloneState \<Rightarrow> cloneState option" where
  "cloneRecursive uuid now 0 nodeId newParentId s = None"
| "cloneRecursive uuid now (Suc k) nodeId newParentId s =
     (case find (\<lambda>n. n_id n = nodeId) (nodes (cs_db s)) of
        None \<Rightarrow> Some s
      | Some node \<Rightarrow>
          (let newId = uuid (cs_next s);
               s1 = addClone uuid now nodeId newParentId node s
           in case cloneChildren uuid now k
                     (filter (\<lambda>n. n_parentId n = nodeId) (nodes (cs_db s1))) newId s1 of
                None \<Rightarrow> None
              | Some s2 \<Rightarrow>
                  Some (cloneVictoryConditions uuid nodeId newId (cloneEdges uuid nodeId newId s2))))"
| "cloneChildren uuid now k [] newId s = Some s"
| "cloneChildren uuid now k (child # cs) newId s =
     (case cloneRecursive uuid now k (n_id child) newId s of
        None \<Rightarrow> None
      | Some s1 \<Rightarrow> cloneChildren uuid now k cs newId s1)"

text \<open>duplicateMachine: a fresh idMap, then cloneRecursive(machine.id, '').\<close>

definition duplicateMachine :: "(nat \<Rightarrow> string) \<Rightarrow> int \<Rightarrow> nat \<Rightarrow> machineNode \<Rightarrow> db \<times> nat \<Rightarrow> (db \<times> nat) option" where
  "duplicateMachine uuid now k machine st =
     map_option (\<lambda>s. (cs_db s, cs_next s))
       (cloneRecursive uuid now k (n_id machine) []
          \<lparr>cs_db = fst st, cs_idMap = Map.empty, cs_next = snd st\<rparr>)"

text \<open>Every id a store holds: of its rows and of the steps embedded in its nodes.\<close>

definition storeIds :: "db \<Rightarrow> string set" where
  "storeIds d =
     n_id ` set (nodes d) \<union> st_id ` (\<Union>n \<in> set (nodes d). set (n_steps n))
     \<union> e_id ` set (edges d) \<union> vc_id ` set (victoryConditions d)
     \<union> p_id ` set (problems d) \<union> sc_id ` set (statusChanges d)
     \<union> c_id ` set (captures d) \<union> ev_id ` set (events d)"

text \<open>The edges owned at the level of a node: those whose parentId is the node.\<close>

definition levelEdges :: "string \<Rightarrow> cloneState \<Rightarrow> machineEdge list" where
  "levelEdges nodeId s = filter (\<lambda>e. e_parentId e = nodeId) (edges (cs_db s))"

text \<open>
  For the proofs: a later state only adds rows to an earlier one, and every id it adds
  (of a node, a step, an edge or a victory condition) is a uuid drawn in between.
\<close>

definition onlyAdds :: "(nat \<Rightarrow> string) \<Rightarrow> cloneState \<Rightarrow> cloneState \<Rightarrow> bool" where
  "onlyAdds uuid s s' \<longleftrightarrow>
     cs_next s \<le> cs_next s'
     \<and> (\<exists>nn ne nv.
           nodes (cs_db s') = nodes (cs_db s) @ nn
           \<and> edges (cs_db s') = edges (cs_db s) @ ne
           \<and> victoryConditions (cs_db s') = victoryConditions (cs_db s) @ nv
           \<and> n_id ` set nn \<subseteq> uuid ` {cs_next s..<cs_next s'}
           \<and> st_id ` (\<Union>n \<in> set nn. set (n_steps n)) \<subseteq> uuid ` {cs_next s..<cs_next s'}
           \<and> e_id ` set ne \<subseteq> uuid ` {cs_next s..<cs_next s'}
           \<and> vc_id ` set nv \<subseteq> uuid ` {cs_next s..<cs_next s'})
     \<and> problems (cs_db s') = problems (cs_db s)
     \<and> statusChanges (cs_db s') = statusChanges (cs_db s)
     \<and> captures (cs_db s') = captures (cs_db s)
     \<and> events (cs_db s') = events (cs_db s)"

text \<open>
  For the proofs: while a store d is being duplicated with the uuids from index i on,
  the state holds the rows of d followed by clones, and a clone has a uuid or (at the top)
  the empty string as its parentId.
\<close>

definition cloneInv :: "(nat \<Rightarrow> string) \<Rightarrow> nat \<Rightarrow> db \<Rightarrow> cloneState \<Rightarrow> bool" where
  "cloneInv uuid i d s \<longleftrightarrow>
     i \<le> cs_next s
     \<and> (\<exists>nn ne.
           nodes (cs_db s) = nodes d @ nn
           \<and> edges (cs_db s) = edges d @ ne
           \<and> (\<forall>n \<in> set nn. n_parentId n \<in> insert [] (uuid ` {i..}))
           \<and> (\<forall>e \<in> set ne. e_parentId e \<in> uuid ` {i..}))"

section \<open>Status transitions (src/pages/Whiteboard.tsx: handleUpdateNode)\<close>

text \<open>Partial<MachineNode>: every field may be absent.\<close>

record nodePatch =
  u_id :: "string option"
  u_parentId :: "string option"
  u_type :: "nodeType option"
  u_label :: "string option"
  u_description :: "string option"
  u_statusId :: "string option"
  u_position :: "(int \<times> int) option"
  u_goal :: "string option"
  u_bottleneck :: "string option"
  u_notes :: "string option"
  u_steps :: "sopStep list option"
  u_toolUrl :: "string option"
  u_proficiency :: "proficiencyLevel option option"
  u_hasChildren :: "bool option"
  u_createdAt :: "int option"
  u_updatedAt :: "int option"

definition noPatch :: nodePatch where
  "noPatch =
     \<lparr>u_id = None, u_parentId = None, u_type = None, u_label = None, u_description = None,
      u_statusId = None, u_position = None, u_goal = None, u_bottleneck = None, u_notes = None,
      u_steps = None, u_toolUrl = None, u_proficiency = None, u_hasChildren = None,
      u_createdAt = None, u_updatedAt = None\<rparr>"

definition orOld :: "'a option \<Rightarrow> 'a \<Rightarrow> 'a" where
  "orOld v old = (case v of None \<Rightarrow> old | Some x \<Rightarrow> x)"

text \<open>The spread \<open>{ ...n, ...updates }\<close>.\<close>

definition applyPatch :: "nodePatch \<Rightarrow> machineNode \<Rightarrow> machineNode" where
  "applyPatch updates n =
     \<lparr>n_id = orOld (u_id updates) (n_id n),
      n_parentId = orOld (u_parentId updates) (n_parentId n),
      n_type = orOld (u_type updates) (n_type n),
      n_label = orOld (u_label updates) (n_label n),
      n_description = orOld (u_description updates) (n_description n),
      n_statusId = orOld (u_statusId updates) (n_statusId n),
      n_position = orOld (u_position updates) (n_position n),
      n_goal = orOld (u_goal updates) (n_goal n),
      n_bottleneck = orOld (u_bottleneck updates) (n_bottleneck n),
      n_notes = orOld (u_notes updates) (n_notes n),
      n_steps = orOld (u_steps updates) (n_steps n),
      n_toolUrl = orOld (u_toolUrl updates) (n_toolUrl n),
      n_proficiency = orOld (u_proficiency updates) (n_proficiency n),
      n_hasChildren = orOld (u_hasChildren updates) (n_hasChildren n),
      n_createdAt = orOld (u_createdAt updates) (n_createdAt n),
      n_updatedAt = orOld (u_updatedAt updates) (n_updatedAt n)\<rparr>"

text \<open>
  The state the whiteboard's handlers work on: the store, the index of the next uuid, and
  of the component's state dbNodes (the nodes loaded for the canvas, in which
  handleUpdateNode looks the current node up) and selectedNodeId.
\<close>

record boardState =
  b_db :: db
  b_next :: nat
  b_dbNodes :: "machineNode list"
  b_selectedNodeId :: "string option"

text \<open>
  The effect "Load data", which runs when parentId changes: dbNodes becomes the rows whose
  parentId is the level shown; with an empty parentId nothing is loaded.
\<close>

definition loadData :: "string \<Rightarrow> boardState \<Rightarrow> boardState" where
  "loadData parentId b =
     (if parentId = [] then b
      else b\<lparr>b_dbNodes := filter (\<lambda>n. n_parentId n = parentId) (nodes (b_db b))\<rparr>)"

text \<open>onNodeClick selects the node that is clicked.\<close>

definition onNodeClick :: "string \<Rightarrow> boardState \<Rightarrow> boardState" where
  "onNodeClick nodeId b = b\<lparr>b_selectedNodeId := Some nodeId\<rparr>"

text \<open>
  onDrillDown sets the search parameter parent to the node, so parentId becomes the node
  and the effect "Load data" runs for it; selectedNodeId is left as it is.
\<close>

definition onDrillDown :: "string \<Rightarrow> boardState \<Rightarrow> boardState" where
  "onDrillDown nodeId b = loadData nodeId b"

text \<open>
  The two writes under \<open>if (updates.statusId)\<close>: the test is on truthiness, so an absent
  and an empty statusId both skip it.
\<close>

definition trackStatusChange :: "(nat \<Rightarrow> string) \<Rightarrow> int \<Rightarrow> string \<Rightarrow> nodePatch \<Rightarrow> boardState \<Rightarrow> boardState" where
  "trackStatusChange uuid now ident updates b =
     (case u_statusId updates of
        None \<Rightarrow> b
      | Some newStatus \<Rightarrow>
          if newStatus = [] then b
          else
            (case find (\<lambda>n. n_id n = ident) (b_dbNodes b) of
               None \<Rightarrow> b
             | Some currentNode \<Rightarrow>
                 if n_statusId currentNode \<noteq> newStatus then
                   b\<lparr>b_db := (b_db b)
                        \<lparr>statusChanges := statusChanges (b_db b) @
                           [\<lparr>sc_id = uuid (b_next b), sc_machineNodeId = ident,
                             sc_fromStatusId = n_statusId currentNode, sc_toStatusId = newStatus,
                             sc_changedAt = now\<rparr>],
                         events := events (b_db b) @
                           [\<lparr>ev_id = uuid (Suc (b_next b)), ev_nodeId = ident,
                             ev_eventType = StatusChangeEv, ev_timestamp = now,
                             ev_previousValue = Some (n_statusId currentNode),
                             ev_newValue = Some newStatus, ev_metadata = None\<rparr>]\<rparr>,
                      b_next := Suc (Suc (b_next b))\<rparr>
                 else b))"

definition trackNoteUpdate :: "(nat \<Rightarrow> string) \<Rightarrow> int \<Rightarrow> string \<Rightarrow> nodePatch \<Rightarrow> boardState \<Rightarrow> boardState" where
  "trackNoteUpdate uuid now ident updates b =
     (if u_notes updates \<noteq> None then
        b\<lparr>b_db := (b_db b)
             \<lparr>events := events (b_db b) @
                [\<lparr>ev_id = uuid (b_next b), ev_nodeId = ident, ev_eventType = NoteUpdated,
                  ev_timestamp = now, ev_previousValue = None, ev_newValue = None,
                  ev_metadata = None\<rparr>]\<rparr>,
           b_next := Suc (b_next b)\<rparr>
      else b)"

text \<open>
  db.nodes.update(id, row): the rows with the id take the fields of row. The store rejects
  the call, and SupabaseTable.update throws, when a row would take a status_id that is not
  the id of a row of statuses (None); an update that matches no row checks nothing.
\<close>

definition nodesUpdate :: "string \<Rightarrow> nodePatch \<Rightarrow> db \<Rightarrow> db option" where
  "nodesUpdate ident row d =
     (if ident \<in> set (map n_id (nodes d))
         \<and> (case u_statusId row of
               None \<Rightarrow> False
             | Some s \<Rightarrow> s \<notin> set (map sg_id (statuses d)))
      then None
      else Some (d\<lparr>nodes := map (\<lambda>n. if n_id n = ident then applyPatch row n else n) (nodes d)\<rparr>))"

text \<open>
  A handler that the store stops: the error carries the state at the throw, in which the
  rows written before it stay.
\<close>

datatype updateError = ForeignKeyViolation boardState

text \<open>handleUpdateNode, up to the refresh of the rendered nodes.\<close>

definition handleUpdateNode ::
  "(nat \<Rightarrow> string) \<Rightarrow> int \<Rightarrow> string \<Rightarrow> nodePatch \<Rightarrow> boardState \<Rightarrow> updateError + boardState" where
  "handleUpdateNode uuid now ident updates b =
     (let b1 = trackStatusChange uuid now ident updates b;
          b2 = trackNoteUpdate uuid now ident updates b1
      in case nodesUpdate ident (updates\<lparr>u_updatedAt := Some now\<rparr>) (b_db b2) of
           None \<Rightarrow> Inl (ForeignKeyViolation b2)
         | Some d \<Rightarrow>
             Inr (b2\<lparr>b_db := d,
                     b_dbNodes := map (\<lambda>n. if n_id n = ident then applyPatch updates n else n)
                                    (b_dbNodes b2)\<rparr>))"

text \<open>
  handleShortcutStatus: the status picked in the shortcut overlay (the id of a row of the
  statuses the component has loaded) goes to the selected node, if there is one.
\<close>

definition handleShortcutStatus ::
  "(nat \<Rightarrow> string) \<Rightarrow> int \<Rightarrow> string \<Rightarrow> boardState \<Rightarrow> updateError + boardState" where
  "handleShortcutStatus uuid now statusId b =
     (case b_selectedNodeId b of
        None \<Rightarrow> Inr b
      | Some selected \<Rightarrow>
          if selected = [] then Inr b
          else handleUpdateNode uuid now selected (noPatch\<lparr>u_statusId := Some statusId\<rparr>) b)"

text \<open>The rows with eventType status-change about one node.\<close>

definition statusEvents :: "string \<Rightarrow> db \<Rightarrow> machineEvent list" where
  "statusEvents ident d =
     filter (\<lambda>ev. ev_eventType ev = StatusChangeEv \<and> ev_nodeId ev = ident) (events d)"

text \<open>What a handler leaves of a node: its status in the store and the two logs.\<close>

definition statusAndLogs ::
  "updateError + boardState \<Rightarrow> ((string \<times> string) list \<times> statusChange list \<times> machineEvent list) option" where
  "statusAndLogs r =
     (case r of
        Inl _ \<Rightarrow> None
      | Inr b \<Rightarrow> Some (map (\<lambda>n. (n_id n, n_statusId n)) (nodes (b_db b)),
                        statusChanges (b_db b), events (b_db b)))"

section \<open>History tracker (useUndoRedo)\<close>

text \<open>The hook useUndoRedo (in this source tree, the second part of src/hooks/useDashboardScan.ts).\<close>


record flowEdge =
  fe_id :: string
  fe_source :: string
  fe_target :: string






text \<open>\<open>prev.slice(-(MAX_HISTORY - 1))\<close>: the last MAX_HISTORY - 1 entries, all of them when there are fewer.\<close>

definition sliceLast :: "nat \<Rightarrow> 'a list \<Rightarrow> 'a list" where
  "sliceLast n xs = drop (length xs - n) xs"









section \<open>Example stores\<close>

text \<open>A node row with the defaults of handleCreate in the fields the examples do not vary.\<close>

definition mkNode :: "string \<Rightarrow> string \<Rightarrow> nodeType \<Rightarrow> string \<Rightarrow> int \<Rightarrow> machineNode" where
  "mkNode i p t s u =
     \<lparr>n_id = i, n_parentId = p, n_type = t, n_label = i, n_description = [],
      n_statusId = s, n_position = (0, 0), n_goal = [], n_bottleneck = [], n_notes = [],
      n_steps = [], n_toolUrl = [], n_proficiency = None, n_hasChildren = True,
      n_createdAt = 0, n_updatedAt = u\<rparr>"

text \<open>
  DEFAULT_STATUSES of the types module, the rows the schema seeds the statuses table with
  (the icons, which are not ASCII, are left empty).
\<close>

definition DEFAULT_STATUSES :: "statusConfig list" where
  "DEFAULT_STATUSES =
     [\<lparr>sg_id = ''running'', sg_label = ''Running'', sg_color = ''#22c55e'', sg_icon = [], sg_order = 0\<rparr>,
      \<lparr>sg_id = ''under'', sg_label = ''Under Construction'', sg_color = ''#f59e0b'', sg_icon = [], sg_order = 1\<rparr>,
      \<lparr>sg_id = ''blocked'', sg_label = ''Blocked'', sg_color = ''#ef4444'', sg_icon = [], sg_order = 2\<rparr>,
      \<lparr>sg_id = ''not-built'', sg_label = ''Not Built'', sg_color = ''#6b7280'', sg_icon = [], sg_order = 3\<rparr>,
      \<lparr>sg_id = ''optimizing'', sg_label = ''Optimizing'', sg_color = ''#8b5cf6'', sg_icon = [], sg_order = 4\<rparr>,
      \<lparr>sg_id = ''paused'', sg_label = ''Paused'', sg_color = ''#94a3b8'', sg_icon = [], sg_order = 5\<rparr>]"

text \<open>A store with the seeded statuses and no other row.\<close>

definition emptyDb :: db where
  "emptyDb = \<lparr>statuses = DEFAULT_STATUSES, nodes = [], edges = [], problems = [],
              victoryConditions = [], statusChanges = [], captures = [], events = []\<rparr>"

definition msPerDay :: int where
  "msPerDay = 86400000"

text \<open>Two rows whose parentId fields point at each other.\<close>

definition cycleNodes :: "machineNode list" where
  "cycleNodes = [mkNode ''a'' ''b'' Machine ''running'' 0, mkNode ''b'' ''a'' Machine ''running'' 0]"

text \<open>
  A root machine set to blocked one day before the scan and not otherwise touched for
  thirty days.
\<close>

definition blockedRoot :: machineNode where
  "blockedRoot = mkNode ''m'' [] Machine ''blocked'' 0"

definition blockedRootDb :: db where
  "blockedRootDb = emptyDb
     \<lparr>nodes := [blockedRoot],
      statusChanges := [\<lparr>sc_id = ''s1'', sc_machineNodeId = ''m'', sc_fromStatusId = ''running'',
                         sc_toStatusId = ''blocked'', sc_changedAt = 29 * msPerDay\<rparr>]\<rparr>"

text \<open>
  A store scanned on day 30: an open problem logged on day 20, a root machine last updated
  on day 22, and an unprocessed capture of day 25.
\<close>

definition scanDb :: db where
  "scanDb = emptyDb
     \<lparr>nodes := [mkNode ''r'' [] Machine ''running'' (22 * msPerDay)],
      problems := [\<lparr>p_id = ''p1'', p_machineNodeId = ''r'', p_title = ''leak'', p_description = [],
                    p_severity = PMedium, p_status = Open, p_diagnosis = [], p_plan = [],
                    p_createdAt = 20 * msPerDay, p_resolvedAt = None\<rparr>],
      captures := [\<lparr>c_id = ''c1'', c_text = ''idea'', c_machineId = [], c_processed = False,
                    c_createdAt = 25 * msPerDay\<rparr>]\<rparr>"

text \<open>
  The end-to-end scenario: a root machine M, under it a procedure P with two steps, and an
  edge from M to P owned by M.
\<close>

definition rootM :: machineNode where
  "rootM = mkNode ''M'' [] Machine ''running'' 0"

definition procedureP :: machineNode where
  "procedureP = (mkNode ''P'' ''M'' Sop ''running'' 0)
     \<lparr>n_steps := [\<lparr>st_id = ''s1'', st_text = ''first'', st_done = True, st_order = 0, st_linkedNodeId = None\<rparr>,
                   \<lparr>st_id = ''s2'', st_text = ''second'', st_done = False, st_order = 1, st_linkedNodeId = None\<rparr>]\<rparr>"

definition machineWithSopDb :: db where
  "machineWithSopDb = emptyDb
     \<lparr>nodes := [rootM, procedureP],
      edges := [\<lparr>e_id = ''e1'', e_parentId = ''M'', e_source = ''M'', e_target = ''P'',
                 e_label = None, e_relationship = Feeds\<rparr>]\<rparr>"

text \<open>
  Four levels: a root machine m; on its canvas the machines p and q, joined by an edge; inside
  p the machines c and c2, joined by an edge of p's level; inside c the tool g; a problem and
  a victory condition on c.
\<close>

definition fourLevelDb :: db where
  "fourLevelDb = emptyDb
     \<lparr>nodes := [mkNode ''m'' [] Machine ''running'' 0, mkNode ''p'' ''m'' Machine ''running'' 0,
                mkNode ''q'' ''m'' Machine ''running'' 0, mkNode ''c'' ''p'' Machine ''running'' 0,
                mkNode ''c2'' ''p'' Machine ''running'' 0, mkNode ''g'' ''c'' Tool ''running'' 0],
      edges := [\<lparr>e_id = ''e1'', e_parentId = ''m'', e_source = ''p'', e_target = ''q'',
                 e_label = None, e_relationship = Feeds\<rparr>,
                \<lparr>e_id = ''e2'', e_parentId = ''p'', e_source = ''c'', e_target = ''c2'',
                 e_label = None, e_relationship = Feeds\<rparr>],
      problems := [\<lparr>p_id = ''pr1'', p_machineNodeId = ''c'', p_title = ''jam'', p_description = [],
                    p_severity = PHigh, p_status = Open, p_diagnosis = [], p_plan = [],
                    p_createdAt = 0, p_resolvedAt = None\<rparr>],
      victoryConditions := [\<lparr>vc_id = ''v1'', vc_machineNodeId = ''c'', vc_label = ''output'',
                    vc_target = ''10'', vc_current = ''4'', vc_met = False, vc_order = 0\<rparr>]\<rparr>"

text \<open>Two root machines joined by an edge that is owned by the root level.\<close>

definition rootEdgeDb :: db where
  "rootEdgeDb = emptyDb
     \<lparr>nodes := [mkNode ''m'' [] Machine ''running'' 0, mkNode ''x'' [] Machine ''running'' 0],
      edges := [\<lparr>e_id = ''e1'', e_parentId = [], e_source = ''m'', e_target = ''x'',
                 e_label = None, e_relationship = Feeds\<rparr>]\<rparr>"




text \<open>
  A root machine r with a machine a on its canvas and a tool k inside a; the whiteboard
  of r with nothing loaded yet; and a uuid supply for the examples.
\<close>

definition nestedDb :: db where
  "nestedDb = emptyDb
     \<lparr>nodes := [mkNode ''r'' [] Machine ''running'' 0, mkNode ''a'' ''r'' Machine ''running'' 0,
                mkNode ''k'' ''a'' Tool ''running'' 0]\<rparr>"

definition boardOpened :: boardState where
  "boardOpened = \<lparr>b_db = nestedDb, b_next = 0, b_dbNodes = [], b_selectedNodeId = None\<rparr>"

text \<open>The canvas of r is loaded and a is clicked.\<close>

definition boardSelected :: boardState where
  "boardSelected = onNodeClick ''a'' (loadData ''r'' boardOpened)"

text \<open>Then a is drilled into: the canvas shows the inside of a, and a is still selected.\<close>

definition boardDrilled :: boardState where
  "boardDrilled = onDrillDown ''a'' boardSelected"

definition unaryUuid :: "nat \<Rightarrow> string" where
  "unaryUuid i = CHR ''u'' # replicate i CHR ''+''"

text \<open>
  A machine N with one child A, and an edge of N's level from A to X, a root machine
  outside the subtree of N.
\<close>

definition externalEdgeDb :: db where
  "externalEdgeDb = emptyDb
     \<lparr>nodes := [mkNode ''N'' [] Machine ''running'' 0, mkNode ''A'' ''N'' Tool ''running'' 0,
                mkNode ''X'' [] Machine ''running'' 0],
      edges := [\<lparr>e_id = ''e1'', e_parentId = ''N'', e_source = ''A'', e_target = ''X'',
                 e_label = None, e_relationship = Depends\<rparr>]\<rparr>"

section \<open>Claims about the severity classifier\<close>

text \<open>
  C5. For every age in days and every threshold configuration, getSeverity returns the
  highest tier whose cutoff the age meets or exceeds, and normal when it meets none; with
  the thresholds amber 3, red 7, critical 14 it maps 2 to normal, 3 to amber, 7 to red,
  14 to critical and 20 to critical. The function is total: it has a value on every input.
\<close>

theorem getSeverity_highest_tier:
  "meetsCutoff days t (getSeverity days t)
   \<and> (\<forall>s. meetsCutoff days t s \<longrightarrow> tierRank s \<le> tierRank (getSeverity days t))
   \<and> (getSeverity days t = Normal \<longleftrightarrow> days < amber t \<and> days < red t \<and> days < critical t)
   \<and> getSeverity 2 \<lparr>amber = 3, red = 7, critical = 14\<rparr> = Normal
   \<and> getSeverity 3 \<lparr>amber = 3, red = 7, critical = 14\<rparr> = Amber
   \<and> getSeverity 7 \<lparr>amber = 3, red = 7, critical = 14\<rparr> = Red
   \<and> getSeverity 14 \<lparr>amber = 3, red = 7, critical = 14\<rparr> = Critical
   \<and> getSeverity 20 \<lparr>amber = 3, red = 7, critical = 14\<rparr> = Critical"
proof -
  have a: "meetsCutoff days t (getSeverity days t)"
    by (simp add: getSeverity_def)
  have b: "meetsCutoff days t s \<longrightarrow> tierRank s \<le> tierRank (getSeverity days t)" for s
    by (cases s) (simp_all add: getSeverity_def)
  have c: "getSeverity days t = Normal \<longleftrightarrow> days < amber t \<and> days < red t \<and> days < critical t"
    by (auto simp add: getSeverity_def)
  show ?thesis using a b c by (simp add: getSeverity_def)
qed

theorem getSeverity_highest_tier_witness:
  "meetsCutoff 10 \<lparr>amber = 3, red = 7, critical = 14\<rparr> Red
   \<and> tierRank Red \<le> tierRank (getSeverity 10 \<lparr>amber = 3, red = 7, critical = 14\<rparr>)
   \<and> getSeverity 10 \<lparr>amber = 3, red = 7, critical = 14\<rparr> = Red"
  using getSeverity_highest_tier [of 10 "\<lparr>amber = 3, red = 7, critical = 14\<rparr>"]
  by (simp add: getSeverity_def)

section \<open>Claims about the attention scanner\<close>

subsection \<open>Every detector drops the normal items\<close>

lemma staleProblems_not_normal:
  "staleProblems now nodeMap ps = Some r \<Longrightarrow> \<forall>i \<in> set r. a_severity i \<noteq> Normal"
proof (induction ps arbitrary: r)
  case Nil
  then show ?case by simp
next
  case (Cons p ps)
  then show ?case
    by (auto simp add: Let_def split: if_splits option.splits)
qed

lemma blockedMachines_not_normal:
  "blockedMachines now nodeMap scs ns = Some r \<Longrightarrow> \<forall>i \<in> set r. a_severity i \<noteq> Normal"
proof (induction ns arbitrary: r)
  case Nil
  then show ?case by simp
next
  case (Cons n ns)
  then show ?case
    by (auto simp add: Let_def split: if_splits option.splits)
qed

lemma unmetVictoryConditions_not_normal:
  "unmetVictoryConditions now nodeMap vcs = Some r \<Longrightarrow> \<forall>i \<in> set r. a_severity i \<noteq> Normal"
proof (induction vcs arbitrary: r)
  case Nil
  then show ?case by simp
next
  case (Cons vc vcs)
  then show ?case
    by (auto simp add: Let_def split: if_splits option.splits)
qed

lemma staleNodes_not_normal: "\<forall>i \<in> set (staleNodes now ns). a_severity i \<noteq> Normal"
  by (induction ns) (auto simp add: Let_def staleNodeItem_def)

lemma agingCaptures_not_normal: "\<forall>i \<in> set (agingCaptures now cs). a_severity i \<noteq> Normal"
proof (cases "map (\<lambda>c. daysSince now (c_createdAt c)) (filter (\<lambda>c. \<not> c_processed c) cs)")
  case Nil
  then show ?thesis by (simp add: agingCaptures_def)
next
  case (Cons a as)
  then show ?thesis by (simp add: agingCaptures_def Let_def)
qed

lemma scanResults_Some:
  assumes "scanResults now d = Some raw"
  shows "\<exists>r1 r2 r3.
     staleProblems now (nodeMapOf (nodes d)) (filter (\<lambda>p. p_status p \<noteq> Resolved) (problems d)) = Some r1
     \<and> blockedMachines now (nodeMapOf (nodes d)) (statusChanges d)
               (filter (\<lambda>n. n_statusId n = ''blocked'') (nodes d)) = Some r2
     \<and> unmetVictoryConditions now (nodeMapOf (nodes d))
               (filter (\<lambda>vc. \<not> vc_met vc) (victoryConditions d)) = Some r3
     \<and> raw = r1 @ r2 @ r3
        @ staleNodes now (filter (\<lambda>n. n_parentId n = [] \<and> n_type n = Machine) (nodes d))
        @ agingCaptures now (filter (\<lambda>c. \<not> c_processed c) (captures d))"
proof (cases "staleProblems now (nodeMapOf (nodes d)) (filter (\<lambda>p. p_status p \<noteq> Resolved) (problems d))")
  case None
  then show ?thesis using assms by (simp add: scanResults_def)
next
  case r1: (Some r1)
  show ?thesis
  proof (cases "blockedMachines now (nodeMapOf (nodes d)) (statusChanges d)
               (filter (\<lambda>n. n_statusId n = ''blocked'') (nodes d))")
    case None
    then show ?thesis using assms r1 by (simp add: scanResults_def)
  next
    case r2: (Some r2)
    show ?thesis
    proof (cases "unmetVictoryConditions now (nodeMapOf (nodes d))
               (filter (\<lambda>vc. \<not> vc_met vc) (victoryConditions d))")
      case None
      then show ?thesis using assms r1 r2 by (simp add: scanResults_def)
    next
      case r3: (Some r3)
      show ?thesis using assms r1 r2 r3 by (simp add: scanResults_def)
    qed
  qed
qed

lemma scanResults_not_normal:
  assumes "scanResults now d = Some raw"
  shows "\<forall>i \<in> set raw. a_severity i \<noteq> Normal"
proof -
  obtain r1 r2 r3 where
    r1: "staleProblems now (nodeMapOf (nodes d)) (filter (\<lambda>p. p_status p \<noteq> Resolved) (problems d)) = Some r1"
    and r2: "blockedMachines now (nodeMapOf (nodes d)) (statusChanges d)
               (filter (\<lambda>n. n_statusId n = ''blocked'') (nodes d)) = Some r2"
    and r3: "unmetVictoryConditions now (nodeMapOf (nodes d))
               (filter (\<lambda>vc. \<not> vc_met vc) (victoryConditions d)) = Some r3"
    and raw: "raw = r1 @ r2 @ r3
        @ staleNodes now (filter (\<lambda>n. n_parentId n = [] \<and> n_type n = Machine) (nodes d))
        @ agingCaptures now (filter (\<lambda>c. \<not> c_processed c) (captures d))"
    using scanResults_Some [OF assms] by blast
  show ?thesis
    unfolding raw
    using staleProblems_not_normal [OF r1] blockedMachines_not_normal [OF r2]
      unmetVictoryConditions_not_normal [OF r3] staleNodes_not_normal agingCaptures_not_normal
    by (simp add: ball_Un)
qed

subsection \<open>The sort\<close>

lemma mset_insertBy: "mset (insertBy cmp x ys) = add_mset x (mset ys)"
  by (induction ys) auto

lemma sortBy_Nil: "sortBy cmp [] = []"
  by (simp add: sortBy_def)

lemma sortBy_Cons: "sortBy cmp (x # xs) = insertBy cmp x (sortBy cmp xs)"
  by (simp add: sortBy_def)

lemma mset_sortBy: "mset (sortBy cmp xs) = mset xs"
  by (induction xs) (simp_all add: sortBy_Nil sortBy_Cons mset_insertBy)

lemma set_insertBy: "set (insertBy cmp x ys) = insert x (set ys)"
  by (induction ys) auto

lemma set_sortBy: "set (sortBy cmp xs) = set xs"
  by (induction xs) (simp_all add: sortBy_Nil sortBy_Cons set_insertBy)

lemma compareItems_le: "compareItems a b \<le> 0 \<longleftrightarrow> ranksBefore a b"
  by (cases "a_severity a"; cases "a_severity b")
     (simp_all add: compareItems_def ranksBefore_def Let_def)

lemma severityOrder_eq: "severityOrder s = severityOrder t \<longleftrightarrow> s = t"
  by (cases s; cases t) simp_all

lemma ranksBefore_total: "\<not> ranksBefore a b \<Longrightarrow> ranksBefore b a"
  by (auto simp add: ranksBefore_def severityOrder_eq)

lemma ranksBefore_trans: "ranksBefore a b \<Longrightarrow> ranksBefore b c \<Longrightarrow> ranksBefore a c"
  by (auto simp add: ranksBefore_def)

lemma sorted_insertBy:
  "sorted_wrt ranksBefore ys \<Longrightarrow> sorted_wrt ranksBefore (insertBy compareItems x ys)"
proof (induction ys)
  case Nil
  then show ?case by simp
next
  case (Cons y ys)
  show ?case
  proof (cases "compareItems x y \<le> 0")
    case True
    then have xy: "ranksBefore x y" by (simp add: compareItems_le)
    have "\<forall>z \<in> set ys. ranksBefore x z"
      using Cons.prems xy by (auto intro: ranksBefore_trans)
    then show ?thesis using True xy Cons.prems by simp
  next
    case False
    then have yx: "ranksBefore y x"
      by (simp add: compareItems_le ranksBefore_total)
    show ?thesis using False yx Cons by (auto simp add: set_insertBy)
  qed
qed

lemma sorted_sortBy: "sorted_wrt ranksBefore (sortBy compareItems xs)"
  by (induction xs) (simp_all add: sortBy_Nil sortBy_Cons sorted_insertBy)

text \<open>An item is inserted in front of every item of its own severity and age: the sort is stable.\<close>

lemma filter_insertBy_same_rank:
  "filter (\<lambda>i. a_severity i = s \<and> a_ageDays i = g) (insertBy compareItems x ys)
   = (if a_severity x = s \<and> a_ageDays x = g then x # filter (\<lambda>i. a_severity i = s \<and> a_ageDays i = g) ys
      else filter (\<lambda>i. a_severity i = s \<and> a_ageDays i = g) ys)"
  by (induction ys) (auto simp add: compareItems_def Let_def)

lemma sortBy_stable:
  "filter (\<lambda>i. a_severity i = s \<and> a_ageDays i = g) (sortBy compareItems xs)
   = filter (\<lambda>i. a_severity i = s \<and> a_ageDays i = g) xs"
  by (induction xs) (simp_all add: sortBy_Nil sortBy_Cons filter_insertBy_same_rank)

text \<open>
  C6. Whenever the scan returns, its output holds exactly the items the five detectors
  pushed (as a multiset), none of them of severity normal; it is sorted by severity rank
  ascending (critical, red, amber) and within one severity by ageDays descending; and the
  sort is stable: items of the same severity and age keep the order the detectors pushed
  them in. Three items of red/5, critical/1 and amber/30, in this order, come out as
  critical/1, red/5, amber/30.
\<close>

theorem runScan_ranked:
  "(runScan now d = Some out \<longrightarrow>
      (\<exists>raw. scanResults now d = Some raw \<and> mset out = mset raw
         \<and> (\<forall>s g. filter (\<lambda>i. a_severity i = s \<and> a_ageDays i = g) out
                  = filter (\<lambda>i. a_severity i = s \<and> a_ageDays i = g) raw))
      \<and> (\<forall>i \<in> set out. a_severity i \<noteq> Normal)
      \<and> sorted_wrt ranksBefore out)
   \<and> map (\<lambda>i. (a_severity i, a_ageDays i))
       (sortBy compareItems [x\<lparr>a_severity := Red, a_ageDays := 5\<rparr>,
                             y\<lparr>a_severity := Critical, a_ageDays := 1\<rparr>,
                             z\<lparr>a_severity := Amber, a_ageDays := 30\<rparr>])
     = [(Critical, 1), (Red, 5), (Amber, 30)]"
proof -
  have general: "(\<exists>raw. scanResults now d = Some raw \<and> mset out = mset raw
         \<and> (\<forall>s g. filter (\<lambda>i. a_severity i = s \<and> a_ageDays i = g) out
                  = filter (\<lambda>i. a_severity i = s \<and> a_ageDays i = g) raw))
      \<and> (\<forall>i \<in> set out. a_severity i \<noteq> Normal)
      \<and> sorted_wrt ranksBefore out" if run: "runScan now d = Some out"
  proof -
    from run obtain raw where raw: "scanResults now d = Some raw"
      and out: "out = sortBy compareItems raw"
      by (auto simp add: runScan_def)
    have "\<forall>i \<in> set out. a_severity i \<noteq> Normal"
      using scanResults_not_normal [OF raw] by (simp add: out set_sortBy)
    moreover have "sorted_wrt ranksBefore out"
      by (simp add: out sorted_sortBy)
    moreover have "mset out = mset raw"
      by (simp add: out mset_sortBy)
    moreover have "\<forall>s g. filter (\<lambda>i. a_severity i = s \<and> a_ageDays i = g) out
                  = filter (\<lambda>i. a_severity i = s \<and> a_ageDays i = g) raw"
      by (simp add: out sortBy_stable)
    ultimately show ?thesis using raw by blast
  qed
  have example: "map (\<lambda>i. (a_severity i, a_ageDays i))
       (sortBy compareItems [x\<lparr>a_severity := Red, a_ageDays := 5\<rparr>,
                             y\<lparr>a_severity := Critical, a_ageDays := 1\<rparr>,
                             z\<lparr>a_severity := Amber, a_ageDays := 30\<rparr>])
     = [(Critical, 1), (Red, 5), (Amber, 30)]"
    by (simp add: sortBy_def compareItems_def)
  show ?thesis using general example by blast
qed

lemma runScan_scanDb:
  "map_option (map (\<lambda>i. (a_id i, a_severity i, a_ageDays i))) (runScan (30 * msPerDay) scanDb)
   = Some [(''captures'', Critical, 5), (''prob-p1'', Red, 10), (''stale-r'', Amber, 8)]"
  by (simp add: runScan_def scanResults_def scanDb_def emptyDb_def mkNode_def msPerDay_def
      Let_def nodeMapOf_def findRootMachine_def climb.simps orElse_def daysSince_def
      getSeverity_def problemThresholds_def stalenessThresholds_def captureThresholds_def
      agingCaptures_def staleNodeItem_def sortBy_def compareItems_def)

theorem runScan_ranked_witness:
  "runScan (30 * msPerDay) scanDb \<noteq> None
   \<and> sorted_wrt ranksBefore (the (runScan (30 * msPerDay) scanDb))
   \<and> map (\<lambda>i. (a_id i, a_severity i, a_ageDays i)) (the (runScan (30 * msPerDay) scanDb))
     = [(''captures'', Critical, 5), (''prob-p1'', Red, 10), (''stale-r'', Amber, 8)]"
proof -
  from runScan_scanDb obtain out where out: "runScan (30 * msPerDay) scanDb = Some out"
    and ids: "map (\<lambda>i. (a_id i, a_severity i, a_ageDays i)) out
              = [(''captures'', Critical, 5), (''prob-p1'', Red, 10), (''stale-r'', Amber, 8)]"
    by auto
  have "sorted_wrt ranksBefore out"
    using runScan_ranked [of "30 * msPerDay" scanDb out] out by blast
  then show ?thesis using out ids by simp
qed

subsection \<open>The stale-node detector\<close>

lemma staleNodes_filter:
  "staleNodes now ns
   = map (staleNodeItem now)
       (filter (\<lambda>n. getSeverity (daysSince now (n_updatedAt n)) stalenessThresholds \<noteq> Normal
                     \<and> n_statusId n \<noteq> ''blocked'') ns)"
  by (induction ns) (simp_all add: Let_def)

text \<open>
  C7 (as amended). The stale-node detector emits one item for every top-level node
  (parentId empty) of kind machine whose staleness severity is above normal and whose
  statusId is not blocked, in the order of the node table, and nothing else: every blocked
  node is left out, whether or not the blocked-machines detector emitted an item for it.
\<close>

theorem staleNodes_skips_every_blocked:
  "staleNodes now (filter (\<lambda>n. n_parentId n = [] \<and> n_type n = Machine) allNodes)
   = map (staleNodeItem now)
       (filter (\<lambda>n. n_parentId n = [] \<and> n_type n = Machine
                     \<and> getSeverity (daysSince now (n_updatedAt n)) stalenessThresholds \<noteq> Normal
                     \<and> n_statusId n \<noteq> ''blocked'') allNodes)"
  by (simp add: staleNodes_filter conj_commute conj_left_commute cong: conj_cong)

theorem staleNodes_skips_every_blocked_witness:
  "map a_id (staleNodes (30 * msPerDay)
      (filter (\<lambda>n. n_parentId n = [] \<and> n_type n = Machine)
         [mkNode ''r'' [] Machine ''running'' (22 * msPerDay), blockedRoot]))
   = [''stale-r'']"
  using staleNodes_skips_every_blocked [of "30 * msPerDay"
      "[mkNode ''r'' [] Machine ''running'' (22 * msPerDay), blockedRoot]"]
  by (simp add: blockedRoot_def mkNode_def msPerDay_def daysSince_def getSeverity_def
      stalenessThresholds_def staleNodeItem_def)

text \<open>
  The claim as stated fails on a root machine that was set to blocked a day before the
  scan and last updated thirty days before it: its staleness severity is critical, the
  blocked-machines detector drops it as normal, and the stale-node detector emits nothing
  for it either.
\<close>

theorem staleNodes_blocked_root_counterexample:
  "n_parentId blockedRoot = [] \<and> n_type blockedRoot = Machine
   \<and> getSeverity (daysSince (30 * msPerDay) (n_updatedAt blockedRoot)) stalenessThresholds = Critical
   \<and> blockedMachines (30 * msPerDay) (nodeMapOf (nodes blockedRootDb)) (statusChanges blockedRootDb)
        (filter (\<lambda>n. n_statusId n = ''blocked'') (nodes blockedRootDb)) = Some []
   \<and> staleNodes (30 * msPerDay)
        (filter (\<lambda>n. n_parentId n = [] \<and> n_type n = Machine) (nodes blockedRootDb)) = []
   \<and> runScan (30 * msPerDay) blockedRootDb = Some []"
  by (simp add: runScan_def scanResults_def blockedRootDb_def blockedRoot_def emptyDb_def
      mkNode_def msPerDay_def Let_def nodeMapOf_def blockedAge_def lastBlocked_def sortBy_def
      daysSince_def getSeverity_def blockedThresholds_def stalenessThresholds_def
      agingCaptures_def)

subsection \<open>Root resolution\<close>

text \<open>
  Where findRootMachine returns, the result is the id of a node whose parentId is empty or
  does not resolve (the last ancestor that does), or the id asked for when no row has it.
  The breadcrumb walk visits the rows of the cycle once each and stops.
\<close>

lemma climb_result:
  assumes "climb nodeMap n = Some r"
  shows "n_parentId r = [] \<or> nodeMap (n_parentId r) = None"
proof (rule climb.raw_induct
    [where P = "\<lambda>nodeMap n r. n_parentId r = [] \<or> nodeMap (n_parentId r) = None", OF _ assms])
  fix f :: "(string \<rightharpoonup> machineNode) \<Rightarrow> machineNode \<Rightarrow> machineNode option"
  fix m :: "string \<rightharpoonup> machineNode" and x y :: machineNode
  assume IH: "\<And>m' x' y'. f m' x' = Some y' \<Longrightarrow> n_parentId y' = [] \<or> m' (n_parentId y') = None"
  assume eq: "(if n_parentId x \<noteq> [] then
                 (case m (n_parentId x) of None \<Rightarrow> Some x | Some parent \<Rightarrow> f m parent)
               else Some x) = Some y"
  show "n_parentId y = [] \<or> m (n_parentId y) = None"
  proof (cases "n_parentId x = []")
    case True
    then show ?thesis using eq by simp
  next
    case False
    show ?thesis
    proof (cases "m (n_parentId x)")
      case None
      then show ?thesis using eq False by simp
    next
      case (Some parent)
      then have "f m parent = Some y" using eq False by simp
      then show ?thesis by (rule IH)
    qed
  qed
qed

lemma findRootMachine_result:
  assumes "findRootMachine nodeMap nodeId = Some r" and "nodeMap nodeId = Some n"
  shows "\<exists>root. climb nodeMap n = Some root \<and> r = orElse (n_id root) nodeId
           \<and> (n_parentId root = [] \<or> nodeMap (n_parentId root) = None)"
  using assms climb_result [of nodeMap n] by (auto simp add: findRootMachine_def)

lemma findRootMachine_unknown: "nodeMap nodeId = None \<Longrightarrow> findRootMachine nodeMap nodeId = Some nodeId"
  by (simp add: findRootMachine_def)

lemma buildBreadcrumbs_cycle:
  "map bc_id (buildBreadcrumbs cycleNodes (Some ''a'')) = [None, Some ''b'', Some ''a'']"
  by (simp add: buildBreadcrumbs_def breadcrumbWalk.simps cycleNodes_def mkNode_def Let_def)

lemma climb_cycle_never_Some:
  assumes "climb nodeMap n = Some r"
  shows "\<not> (nodeMap = nodeMapOf cycleNodes \<and> n \<in> set cycleNodes)"
proof (rule climb.raw_induct
    [where P = "\<lambda>nodeMap n r. \<not> (nodeMap = nodeMapOf cycleNodes \<and> n \<in> set cycleNodes)", OF _ assms])
  fix f :: "(string \<rightharpoonup> machineNode) \<Rightarrow> machineNode \<Rightarrow> machineNode option"
  fix m :: "string \<rightharpoonup> machineNode" and x y :: machineNode
  assume IH: "\<And>m' x' y'. f m' x' = Some y' \<Longrightarrow> \<not> (m' = nodeMapOf cycleNodes \<and> x' \<in> set cycleNodes)"
  assume eq: "(if n_parentId x \<noteq> [] then
                 (case m (n_parentId x) of None \<Rightarrow> Some x | Some parent \<Rightarrow> f m parent)
               else Some x) = Some y"
  show "\<not> (m = nodeMapOf cycleNodes \<and> x \<in> set cycleNodes)"
  proof
    assume h: "m = nodeMapOf cycleNodes \<and> x \<in> set cycleNodes"
    then have "x = mkNode ''a'' ''b'' Machine ''running'' 0 \<or> x = mkNode ''b'' ''a'' Machine ''running'' 0"
      by (simp add: cycleNodes_def)
    then show False
    proof
      assume x: "x = mkNode ''a'' ''b'' Machine ''running'' 0"
      have "f m (mkNode ''b'' ''a'' Machine ''running'' 0) = Some y"
        using eq h x by (simp add: nodeMapOf_def cycleNodes_def mkNode_def)
      from IH [OF this] h show False by (simp add: cycleNodes_def)
    next
      assume x: "x = mkNode ''b'' ''a'' Machine ''running'' 0"
      have "f m (mkNode ''a'' ''b'' Machine ''running'' 0) = Some y"
        using eq h x by (simp add: nodeMapOf_def cycleNodes_def mkNode_def)
      from IH [OF this] h show False by (simp add: cycleNodes_def)
    qed
  qed
qed

text \<open>
  C3. On a store whose two rows name each other as parent, findRootMachine never returns:
  its loop has no visited set and no bound on the steps, unlike the breadcrumb walk.
\<close>

theorem findRootMachine_cycle_diverges:
  "findRootMachine (nodeMapOf cycleNodes) ''a'' = None"
proof -
  have "climb (nodeMapOf cycleNodes) (mkNode ''a'' ''b'' Machine ''running'' 0) = None"
    using climb_cycle_never_Some [of "nodeMapOf cycleNodes" "mkNode ''a'' ''b'' Machine ''running'' 0"]
    by (cases "climb (nodeMapOf cycleNodes) (mkNode ''a'' ''b'' Machine ''running'' 0)")
       (simp_all add: cycleNodes_def)
  moreover have "nodeMapOf cycleNodes ''a'' = Some (mkNode ''a'' ''b'' Machine ''running'' 0)"
    by (simp add: nodeMapOf_def cycleNodes_def mkNode_def)
  ultimately show ?thesis by (simp add: findRootMachine_def)
qed

section \<open>Claims about the cascading delete\<close>

subsection \<open>The traversal and the rows it removes\<close>

lemma removeIds_fields [simp]:
  "nodes (removeIds S d) = filter (\<lambda>n. n_id n \<notin> S) (nodes d)"
  "edges (removeIds S d) = filter (\<lambda>e. e_parentId e \<notin> S) (edges d)"
  "problems (removeIds S d) = filter (\<lambda>p. p_machineNodeId p \<notin> S) (problems d)"
  "victoryConditions (removeIds S d) = filter (\<lambda>v. vc_machineNodeId v \<notin> S) (victoryConditions d)"
  "statusChanges (removeIds S d) = filter (\<lambda>c. sc_machineNodeId c \<notin> S) (statusChanges d)"
  "captures (removeIds S d) = captures d"
  "events (removeIds S d) = events d"
  by (simp_all add: removeIds_def)

lemma removeIds_empty: "removeIds {} d = d"
  by (simp add: removeIds_def)

lemma deleteOwnRows_removeIds: "deleteOwnRows x (removeIds S d) = removeIds (insert x S) d"
  by (simp add: deleteOwnRows_def removeIds_def Let_def conj_commute)


lemma descendantRows_closed:
  "descendantRows k d x = Some L \<Longrightarrow>
     set L \<subseteq> set (nodes d) \<and> (\<forall>n \<in> set (nodes d). n_parentId n \<in> insert x (n_id ` set L) \<longrightarrow> n \<in> set L)"
  and descendantRowsOf_closed:
  "descendantRowsOf k d cs = Some L \<Longrightarrow> set cs \<subseteq> set (nodes d) \<Longrightarrow>
     set L \<subseteq> set (nodes d) \<and> set cs \<subseteq> set L
     \<and> (\<forall>n \<in> set (nodes d). n_parentId n \<in> n_id ` set L \<longrightarrow> n \<in> set L)"
proof (induction k d x and k d cs arbitrary: L and L rule: descendantRows_descendantRowsOf.induct)
  case (1 d nodeId)
  then show ?case by simp
next
  case (2 k d nodeId)
  from "2.prems" have L: "descendantRowsOf k d (filter (\<lambda>n. n_parentId n = nodeId) (nodes d)) = Some L"
    by simp
  have cc: "set L \<subseteq> set (nodes d) \<and> set (filter (\<lambda>n. n_parentId n = nodeId) (nodes d)) \<subseteq> set L
     \<and> (\<forall>n \<in> set (nodes d). n_parentId n \<in> n_id ` set L \<longrightarrow> n \<in> set L)"
    using "2.IH" [OF L] by simp
  show ?case
  proof (intro conjI ballI impI)
    show "set L \<subseteq> set (nodes d)" using cc by blast
  next
    fix n assume n: "n \<in> set (nodes d)" and p: "n_parentId n \<in> insert nodeId (n_id ` set L)"
    show "n \<in> set L"
    proof (cases "n_parentId n = nodeId")
      case True
      then have "n \<in> set (filter (\<lambda>n. n_parentId n = nodeId) (nodes d))" using n by simp
      then show ?thesis using cc by blast
    next
      case False
      then show ?thesis using cc n p by blast
    qed
  qed
next
  case (3 k d)
  then show ?case by simp
next
  case (4 k d child cs)
  from "4.prems" obtain below rest where
    b: "descendantRows k d (n_id child) = Some below"
    and r: "descendantRowsOf k d cs = Some rest"
    and L: "L = child # below @ rest"
    by (auto split: option.splits)
  have cb: "set below \<subseteq> set (nodes d) \<and> (\<forall>n \<in> set (nodes d). n_parentId n \<in> insert (n_id child) (n_id ` set below) \<longrightarrow> n \<in> set below)"
    using "4.IH"(1) [OF b] .
  have cr: "set rest \<subseteq> set (nodes d) \<and> set cs \<subseteq> set rest
     \<and> (\<forall>n \<in> set (nodes d). n_parentId n \<in> n_id ` set rest \<longrightarrow> n \<in> set rest)"
    using "4.IH"(2) [OF b r] "4.prems"(2) by simp
  show ?case
  proof (intro conjI ballI impI)
    show "set L \<subseteq> set (nodes d)" using cb cr L "4.prems"(2) by auto
    show "set (child # cs) \<subseteq> set L" using cr L by auto
  next
    fix n assume n: "n \<in> set (nodes d)" and p: "n_parentId n \<in> n_id ` set L"
    from p L consider "n_parentId n \<in> insert (n_id child) (n_id ` set below)"
      | "n_parentId n \<in> n_id ` set rest" by auto
    then show "n \<in> set L"
    proof cases
      case 1
      then show ?thesis using cb n L by auto
    next
      case 2
      then show ?thesis using cr n L by auto
    qed
  qed
qed



lemma countType_problems [simp]: "s_problems (countType u totals) = s_problems totals"
  by (cases u) simp_all

lemma countType_edges [simp]: "s_edges (countType u totals) = s_edges totals"
  by (cases u) simp_all





lemma descendantRows_in_downClosed:
  "descendantRows k d x = Some L \<Longrightarrow> downClosed d R \<Longrightarrow> x \<in> R \<Longrightarrow> n_id ` set L \<subseteq> R"
  and descendantRowsOf_in_downClosed:
  "descendantRowsOf k d cs = Some L \<Longrightarrow> downClosed d R \<Longrightarrow> n_id ` set cs \<subseteq> R \<Longrightarrow> set cs \<subseteq> set (nodes d)
     \<Longrightarrow> n_id ` set L \<subseteq> R"
proof (induction k d x and k d cs arbitrary: L and L rule: descendantRows_descendantRowsOf.induct)
  case (1 d nodeId)
  then show ?case by simp
next
  case (2 k d nodeId)
  from "2.prems" have L: "descendantRowsOf k d (filter (\<lambda>n. n_parentId n = nodeId) (nodes d)) = Some L"
    by simp
  have "n_id ` set (filter (\<lambda>n. n_parentId n = nodeId) (nodes d)) \<subseteq> R"
    using "2.prems"(2,3) by (auto simp add: downClosed_def)
  then show ?case using "2.IH" [OF L "2.prems"(2)] by simp
next
  case (3 k d)
  then show ?case by simp
next
  case (4 k d child cs)
  from "4.prems" obtain below rest where
    b: "descendantRows k d (n_id child) = Some below"
    and r: "descendantRowsOf k d cs = Some rest"
    and L: "L = child # below @ rest"
    by (auto split: option.splits)
  have "n_id ` set below \<subseteq> R" using "4.IH"(1) [OF b "4.prems"(2)] "4.prems"(3) by simp
  moreover have "n_id ` set rest \<subseteq> R" using "4.IH"(2) [OF b r "4.prems"(2)] "4.prems"(3,4) by simp
  ultimately show ?case using L "4.prems"(3) by auto
qed

lemma downClosed_Un_subtree:
  assumes "downClosed d R" and "descendantRows k d x = Some L"
  shows "downClosed d (R \<union> insert x (n_id ` set L))"
  using assms descendantRows_closed [OF assms(2)]
  by (auto simp add: downClosed_def)

lemma deleteRecursive_removeIds:
  "descendantRows k d x = Some L \<Longrightarrow> downClosed d R \<Longrightarrow>
     deleteRecursive k x (removeIds R d) = Some (removeIds (R \<union> insert x (n_id ` set L)) d)"
  and deleteChildren_removeIds:
  "descendantRowsOf k d cs = Some L \<Longrightarrow> downClosed d R \<Longrightarrow> R0 \<subseteq> R \<Longrightarrow> set cs \<subseteq> set (nodes d) \<Longrightarrow>
     deleteChildren k (filter (\<lambda>n. n_id n \<notin> R0) cs) (removeIds R d) = Some (removeIds (R \<union> n_id ` set L) d)"
proof (induction k d x and k d cs arbitrary: L R and L R R0 rule: descendantRows_descendantRowsOf.induct)
  case (1 d nodeId)
  then show ?case by simp
next
  case (2 k d nodeId)
  from "2.prems" have L: "descendantRowsOf k d (filter (\<lambda>n. n_parentId n = nodeId) (nodes d)) = Some L"
    by simp
  have ch: "filter (\<lambda>n. n_parentId n = nodeId) (nodes (removeIds R d))
            = filter (\<lambda>n. n_id n \<notin> R) (filter (\<lambda>n. n_parentId n = nodeId) (nodes d))"
    by (simp add: conj_commute)
  have "deleteChildren k (filter (\<lambda>n. n_id n \<notin> R) (filter (\<lambda>n. n_parentId n = nodeId) (nodes d))) (removeIds R d)
        = Some (removeIds (R \<union> n_id ` set L) d)"
    using "2.IH" [OF L "2.prems"(2), of R] by simp
  then show ?case
    by (simp add: ch deleteOwnRows_removeIds del: removeIds_fields)
next
  case (3 k d)
  then show ?case by simp
next
  case (4 k d child cs)
  from "4.prems" obtain below rest where
    b: "descendantRows k d (n_id child) = Some below"
    and r: "descendantRowsOf k d cs = Some rest"
    and L: "L = child # below @ rest"
    by (auto split: option.splits)
  have cs: "set cs \<subseteq> set (nodes d)" using "4.prems"(4) by simp
  show ?case
  proof (cases "n_id child \<in> R0")
    case True
    then have inR: "n_id child \<in> R" using "4.prems"(3) by blast
    have "n_id ` set below \<subseteq> R"
      using descendantRows_in_downClosed [OF b "4.prems"(2) inR] .
    then have eq: "R \<union> n_id ` set L = R \<union> n_id ` set rest"
      using inR L by auto
    have "deleteChildren k (filter (\<lambda>n. n_id n \<notin> R0) (child # cs)) (removeIds R d)
          = deleteChildren k (filter (\<lambda>n. n_id n \<notin> R0) cs) (removeIds R d)"
      using True by simp
    also have "\<dots> = Some (removeIds (R \<union> n_id ` set L) d)"
      unfolding eq using "4.IH"(2) [OF b r "4.prems"(2,3) cs] .
    finally show ?thesis .
  next
    case False
    let ?R' = "R \<union> insert (n_id child) (n_id ` set below)"
    have d1: "deleteRecursive k (n_id child) (removeIds R d) = Some (removeIds ?R' d)"
      using "4.IH"(1) [OF b "4.prems"(2)] .
    have dc: "downClosed d ?R'"
      using downClosed_Un_subtree [OF "4.prems"(2) b] .
    have sub: "R0 \<subseteq> ?R'" using "4.prems"(3) by blast
    have d2: "deleteChildren k (filter (\<lambda>n. n_id n \<notin> R0) cs) (removeIds ?R' d)
              = Some (removeIds (?R' \<union> n_id ` set rest) d)"
      using "4.IH"(2) [OF b r dc sub cs] .
    have eq: "?R' \<union> n_id ` set rest = R \<union> n_id ` set L"
      using L by auto
    have "deleteChildren k (filter (\<lambda>n. n_id n \<notin> R0) (child # cs)) (removeIds R d)
          = deleteChildren k (filter (\<lambda>n. n_id n \<notin> R0) cs) (removeIds ?R' d)"
      using False d1 by simp
    also have "\<dots> = Some (removeIds (R \<union> n_id ` set L) d)"
      unfolding d2 eq ..
    finally show ?thesis .
  qed
qed

subsection \<open>More fuel does not change a result\<close>

lemma countRecursive_fuel:
  "countRecursive k d x = Some s \<Longrightarrow> countRecursive (Suc k) d x = Some s"
  and countChildren_fuel:
  "countChildren k d cs totals = Some s \<Longrightarrow> countChildren (Suc k) d cs totals = Some s"
proof (induction k d x and k d cs totals arbitrary: s and s rule: countRecursive_countChildren.induct)
  case (1 d nodeId)
  then show ?case by simp
next
  case (2 k d nodeId)
  then show ?case by simp
next
  case (3 k d totals)
  then show ?case by simp
next
  case (4 k d child cs totals)
  from "4.prems" obtain childTotals where
    ct: "countRecursive k d (n_id child) = Some childTotals"
    and rest: "countChildren k d cs (addTotals (countType (n_type child) totals) childTotals) = Some s"
    by (auto split: option.splits)
  show ?case using "4.IH"(1) [OF ct] "4.IH"(2) [OF ct rest] by simp
qed

lemma deleteRecursive_fuel:
  "deleteRecursive k x d = Some d' \<Longrightarrow> deleteRecursive (Suc k) x d = Some d'"
  and deleteChildren_fuel:
  "deleteChildren k cs d = Some d' \<Longrightarrow> deleteChildren (Suc k) cs d = Some d'"
proof (induction k x d and k cs d arbitrary: d' and d' rule: deleteRecursive_deleteChildren.induct)
  case (1 nodeId d)
  then show ?case by simp
next
  case (2 k nodeId d)
  from "2.prems" obtain d1 where
    d1: "deleteChildren k (filter (\<lambda>n. n_parentId n = nodeId) (nodes d)) d = Some d1"
    and d': "d' = deleteOwnRows nodeId d1"
    by (auto split: option.splits)
  show ?case using "2.IH" [OF d1] d' by simp
next
  case (3 k d)
  then show ?case by simp
next
  case (4 k child cs d)
  from "4.prems" obtain d1 where
    d1: "deleteRecursive k (n_id child) d = Some d1"
    and r: "deleteChildren k cs d1 = Some d'"
    by (auto split: option.splits)
  show ?case using "4.IH"(1) [OF d1] "4.IH"(2) [OF d1 r] by simp
qed

subsection \<open>A traversal that returns visits every descendant once\<close>

lemma childRel_iff: "(p, c) \<in> childRel d \<longleftrightarrow> (\<exists>n \<in> set (nodes d). n_parentId n = p \<and> n_id n = c)"
  by (auto simp add: childRel_def)

lemma descendantRows_below:
  "descendantRows k d x = Some L \<Longrightarrow> \<forall>n \<in> set L. (x, n_id n) \<in> (childRel d)\<^sup>+"
  and descendantRowsOf_below:
  "descendantRowsOf k d cs = Some L \<Longrightarrow> set cs \<subseteq> set (nodes d) \<Longrightarrow>
     \<forall>n \<in> set L. \<exists>c \<in> set cs. (n_id c, n_id n) \<in> (childRel d)\<^sup>*"
proof (induction k d x and k d cs arbitrary: L and L rule: descendantRows_descendantRowsOf.induct)
  case (1 d nodeId)
  then show ?case by simp
next
  case (2 k d nodeId)
  from "2.prems" have L: "descendantRowsOf k d (filter (\<lambda>n. n_parentId n = nodeId) (nodes d)) = Some L"
    by simp
  have ih: "\<forall>n \<in> set L. \<exists>c \<in> set (filter (\<lambda>n. n_parentId n = nodeId) (nodes d)). (n_id c, n_id n) \<in> (childRel d)\<^sup>*"
    using "2.IH" [OF L] by simp
  show ?case
  proof
    fix n assume "n \<in> set L"
    with ih obtain c where c: "c \<in> set (nodes d)" "n_parentId c = nodeId"
      and cn: "(n_id c, n_id n) \<in> (childRel d)\<^sup>*" by auto
    have "(nodeId, n_id c) \<in> childRel d" using c by (auto simp add: childRel_iff)
    then show "(nodeId, n_id n) \<in> (childRel d)\<^sup>+" using cn by (rule rtrancl_into_trancl2)
  qed
next
  case (3 k d)
  then show ?case by simp
next
  case (4 k d child cs)
  from "4.prems" obtain below rest where
    b: "descendantRows k d (n_id child) = Some below"
    and r: "descendantRowsOf k d cs = Some rest"
    and L: "L = child # below @ rest"
    by (auto split: option.splits)
  have ib: "\<forall>n \<in> set below. (n_id child, n_id n) \<in> (childRel d)\<^sup>+"
    using "4.IH"(1) [OF b] .
  have ir: "\<forall>n \<in> set rest. \<exists>c \<in> set cs. (n_id c, n_id n) \<in> (childRel d)\<^sup>*"
    using "4.IH"(2) [OF b r] "4.prems"(2) by simp
  show ?case
  proof
    fix n assume "n \<in> set L"
    then consider "n = child" | "n \<in> set below" | "n \<in> set rest" using L by auto
    then show "\<exists>c \<in> set (child # cs). (n_id c, n_id n) \<in> (childRel d)\<^sup>*"
    proof cases
      case 1
      then show ?thesis by auto
    next
      case 2
      then have "(n_id child, n_id n) \<in> (childRel d)\<^sup>*" using ib by (simp add: trancl_into_rtrancl)
      then show ?thesis by auto
    next
      case 3
      then show ?thesis using ir by auto
    qed
  qed
qed

lemma descendantRowsOf_None:
  "c \<in> set cs \<Longrightarrow> descendantRows k d (n_id c) = None \<Longrightarrow> descendantRowsOf k d cs = None"
  by (induction cs) (auto split: option.splits)

lemma descendantRows_cycle_None:
  "(x, x) \<in> (childRel d)\<^sup>+ \<Longrightarrow> descendantRows k d x = None"
proof (induction k arbitrary: x)
  case 0
  then show ?case by simp
next
  case (Suc k)
  from Suc.prems obtain c where xc: "(x, c) \<in> childRel d" and cx: "(c, x) \<in> (childRel d)\<^sup>*"
    by (meson tranclD)
  have cc: "(c, c) \<in> (childRel d)\<^sup>+" using cx xc by (rule rtrancl_into_trancl1)
  from xc obtain n where n: "n \<in> set (nodes d)" "n_parentId n = x" "n_id n = c"
    by (auto simp add: childRel_iff)
  have "descendantRows k d (n_id n) = None" using Suc.IH [OF cc] n by simp
  moreover have "n \<in> set (filter (\<lambda>n. n_parentId n = x) (nodes d))" using n by simp
  ultimately have "descendantRowsOf k d (filter (\<lambda>n. n_parentId n = x) (nodes d)) = None"
    by (rule descendantRowsOf_None [rotated])
  then show ?case by simp
qed

lemma distinct_ids_inj: "distinct (map n_id (nodes d)) \<Longrightarrow> inj_on n_id (set (nodes d))"
  by (simp add: distinct_map)

lemma childRel_one_parent:
  assumes "distinct (map n_id (nodes d))"
  shows "single_valued ((childRel d)\<inverse>)"
proof (rule single_valuedI)
  fix y p q assume "(y, p) \<in> (childRel d)\<inverse>" "(y, q) \<in> (childRel d)\<inverse>"
  then obtain n m where n: "n \<in> set (nodes d)" "n_parentId n = p" "n_id n = y"
    and m: "m \<in> set (nodes d)" "n_parentId m = q" "n_id m = y"
    by (auto simp add: childRel_iff)
  have "n = m" using distinct_ids_inj [OF assms] n m by (auto dest: inj_onD)
  then show "p = q" using n m by simp
qed

text \<open>Two children of a node that is on no cycle have no descendant in common.\<close>

lemma siblings_disjoint:
  assumes dist: "distinct (map n_id (nodes d))"
    and acyc: "(x, x) \<notin> (childRel d)\<^sup>+"
    and c: "c \<in> set (nodes d)" "n_parentId c = x"
    and c': "c' \<in> set (nodes d)" "n_parentId c' = x"
    and ne: "n_id c \<noteq> n_id c'"
    and y: "(n_id c, y) \<in> (childRel d)\<^sup>*" "(n_id c', y) \<in> (childRel d)\<^sup>*"
  shows False
proof -
  let ?R = "childRel d"
  have sv: "single_valued (?R\<inverse>)" using childRel_one_parent [OF dist] .
  have xc: "(x, n_id c) \<in> ?R" "(x, n_id c') \<in> ?R" using c c' by (auto simp add: childRel_iff)
  have up: "(a, x) \<in> ?R\<^sup>*" if "(a, b) \<in> ?R\<^sup>+" "(x, b) \<in> ?R" for a b
  proof -
    from that(1) obtain p where ap: "(a, p) \<in> ?R\<^sup>*" and pb: "(p, b) \<in> ?R"
      by (meson tranclD2)
    have "p = x" using sv pb that(2) by (auto dest: single_valuedD)
    then show ?thesis using ap by simp
  qed
  have "(y, n_id c) \<in> (?R\<inverse>)\<^sup>*" "(y, n_id c') \<in> (?R\<inverse>)\<^sup>*"
    using y by (simp_all add: rtrancl_converse)
  from single_valued_confluent [OF sv this]
  have "(n_id c', n_id c) \<in> ?R\<^sup>* \<or> (n_id c, n_id c') \<in> ?R\<^sup>*"
    by (simp add: rtrancl_converse)
  then show False
  proof
    assume "(n_id c', n_id c) \<in> ?R\<^sup>*"
    then have "(n_id c', n_id c) \<in> ?R\<^sup>+" using ne by (metis rtranclD)
    then have "(n_id c', x) \<in> ?R\<^sup>*" using xc(1) by (rule up)
    then have "(x, x) \<in> ?R\<^sup>+" using xc(2) by (rule rtrancl_into_trancl2 [rotated])
    then show False using acyc by simp
  next
    assume "(n_id c, n_id c') \<in> ?R\<^sup>*"
    then have "(n_id c, n_id c') \<in> ?R\<^sup>+" using ne by (metis rtranclD)
    then have "(n_id c, x) \<in> ?R\<^sup>*" using xc(2) by (rule up)
    then have "(x, x) \<in> ?R\<^sup>+" using xc(1) by (rule rtrancl_into_trancl2 [rotated])
    then show False using acyc by simp
  qed
qed

lemma descendantRows_distinct:
  "descendantRows k d x = Some L \<Longrightarrow> distinct (map n_id (nodes d)) \<Longrightarrow>
     distinct (map n_id L) \<and> x \<notin> n_id ` set L"
  and descendantRowsOf_distinct:
  "descendantRowsOf k d cs = Some L \<Longrightarrow> distinct (map n_id (nodes d)) \<Longrightarrow>
     set cs \<subseteq> set (nodes d) \<Longrightarrow> distinct (map n_id cs) \<Longrightarrow>
     (\<forall>c \<in> set cs. n_parentId c = x) \<Longrightarrow> (x, x) \<notin> (childRel d)\<^sup>+ \<Longrightarrow>
     distinct (map n_id L)"
proof (induction k d x and k d cs arbitrary: L and L x rule: descendantRows_descendantRowsOf.induct)
  case (1 d nodeId)
  then show ?case by simp
next
  case (2 k d nodeId)
  from "2.prems" have L: "descendantRowsOf k d (filter (\<lambda>n. n_parentId n = nodeId) (nodes d)) = Some L"
    by simp
  have acyc: "(nodeId, nodeId) \<notin> (childRel d)\<^sup>+"
    using descendantRows_cycle_None [of nodeId d "Suc k"] "2.prems"(1) by auto
  have dc: "distinct (map n_id (filter (\<lambda>n. n_parentId n = nodeId) (nodes d)))"
    using "2.prems"(2) by (simp add: distinct_map_filter)
  have sub: "set (filter (\<lambda>n. n_parentId n = nodeId) (nodes d)) \<subseteq> set (nodes d)" by simp
  have par: "\<forall>c \<in> set (filter (\<lambda>n. n_parentId n = nodeId) (nodes d)). n_parentId c = nodeId" by simp
  have "distinct (map n_id L)"
    by (rule "2.IH" [OF L "2.prems"(2) sub dc par acyc])
  moreover have "nodeId \<notin> n_id ` set L"
    using descendantRows_below [OF "2.prems"(1)] acyc by auto
  ultimately show ?case by simp
next
  case (3 k d)
  then show ?case by simp
next
  case (4 k d child cs)
  from "4.prems" obtain below rest where
    b: "descendantRows k d (n_id child) = Some below"
    and r: "descendantRowsOf k d cs = Some rest"
    and L: "L = child # below @ rest"
    by (auto split: option.splits)
  have cs: "set cs \<subseteq> set (nodes d)" "distinct (map n_id cs)" "\<forall>c \<in> set cs. n_parentId c = x"
    using "4.prems"(3,4,5) by simp_all
  have child: "child \<in> set (nodes d)" "n_parentId child = x" "n_id child \<notin> n_id ` set cs"
    using "4.prems"(3,4,5) by auto
  have db: "distinct (map n_id below) \<and> n_id child \<notin> n_id ` set below"
    using "4.IH"(1) [OF b "4.prems"(2)] .
  have dr: "distinct (map n_id rest)"
    using "4.IH"(2) [OF b r "4.prems"(2) cs "4.prems"(6)] .
  have up1: "\<forall>n \<in> set (child # below). (n_id child, n_id n) \<in> (childRel d)\<^sup>*"
    using descendantRows_below [OF b] by (auto simp add: trancl_into_rtrancl)
  have up2: "\<forall>n \<in> set rest. \<exists>c \<in> set cs. (n_id c, n_id n) \<in> (childRel d)\<^sup>*"
    using descendantRowsOf_below [OF r cs(1)] .
  have disj: "n_id ` set (child # below) \<inter> n_id ` set rest = {}"
  proof (rule ccontr)
    assume "n_id ` set (child # below) \<inter> n_id ` set rest \<noteq> {}"
    then obtain n m where n: "n \<in> set (child # below)" and m: "m \<in> set rest" and eq: "n_id n = n_id m"
      by auto
    from up2 m obtain c where c: "c \<in> set cs" and cm: "(n_id c, n_id m) \<in> (childRel d)\<^sup>*" by auto
    have cn: "(n_id child, n_id m) \<in> (childRel d)\<^sup>*" using up1 n eq by auto
    have ne: "n_id child \<noteq> n_id c" using child(3) c by auto
    have c_in: "c \<in> set (nodes d)" and c_par: "n_parentId c = x" using c cs by auto
    show False
      by (rule siblings_disjoint [OF "4.prems"(2) "4.prems"(6) child(1,2) c_in c_par ne cn cm])
  qed
  have "distinct (map n_id (child # below))" using db by simp
  then have "distinct (map n_id ((child # below) @ rest))"
    using dr disj by (simp only: map_append distinct_append set_map)
  then show ?case using L by simp
qed


subsection \<open>Counting the removed rows\<close>

lemma length_filter_disj:
  "(\<And>p. \<not> (P p \<and> Q p)) \<Longrightarrow>
     length (filter (\<lambda>p. P p \<or> Q p) ps) = length (filter P ps) + length (filter Q ps)"
  by (induction ps) auto

lemma length_filter_keys:
  "distinct vs \<Longrightarrow>
     length (filter (\<lambda>p. f p \<in> set vs) ps) = sum_list (map (\<lambda>v. length (filter (\<lambda>p. f p = v) ps)) vs)"
proof (induction vs)
  case Nil
  then show ?case by simp
next
  case (Cons v vs)
  have "length (filter (\<lambda>p. f p \<in> set (v # vs)) ps)
        = length (filter (\<lambda>p. f p = v \<or> f p \<in> set vs) ps)" by simp
  also have "\<dots> = length (filter (\<lambda>p. f p = v) ps) + length (filter (\<lambda>p. f p \<in> set vs) ps)"
    using Cons.prems by (intro length_filter_disj) auto
  finally show ?case using Cons by simp
qed






text \<open>What deleteRecursive leaves when the traversal returns: the store without the rows of the subtree.\<close>

lemma subtreeIds_descendantRows:
  assumes "descendantRows k d x = Some L"
  shows "subtreeIds d x = insert x (n_id ` set L)"
proof (intro set_eqI iffI)
  fix y assume "y \<in> subtreeIds d x"
  then have "(x, y) \<in> (childRel d)\<^sup>*" by (simp add: subtreeIds_def)
  then show "y \<in> insert x (n_id ` set L)"
  proof (induction rule: rtrancl_induct)
    case base
    then show ?case by simp
  next
    case (step y z)
    from step.hyps(2) obtain n where n: "n \<in> set (nodes d)" "n_parentId n = y" "n_id n = z"
      by (auto simp add: childRel_iff)
    have "n \<in> set L" using descendantRows_closed [OF assms] n step.IH by blast
    then show ?case using n by auto
  qed
next
  fix y assume "y \<in> insert x (n_id ` set L)"
  then show "y \<in> subtreeIds d x"
    using descendantRows_below [OF assms] by (auto simp add: subtreeIds_def dest: trancl_into_rtrancl)
qed

lemma deleteRecursive_clears_subtree:
  assumes "descendantRows k d x = Some L"
  shows "deleteRecursive k x d = Some (removeIds (subtreeIds d x) d)"
proof -
  have "downClosed d {}" by (simp add: downClosed_def)
  from deleteRecursive_removeIds [OF assms this]
  show ?thesis by (simp add: removeIds_empty subtreeIds_descendantRows [OF assms] del: removeIds_fields)
qed

subsection \<open>The summary of the dry run\<close>







subsection \<open>The delete of the whiteboard\<close>

text \<open>
  deleteRecursive removes the edges a deleted node owns (parentId), not those that name it
  as an endpoint: an edge of the root level between two root machines stays when one of
  them is deleted. (The canvas adds edges below a machine only; a store filled by an
  import can hold an edge of the root level.)
\<close>

lemma confirmDelete_keeps_root_level_edge:
  "map_option (\<lambda>d. (map n_id (nodes d), map (\<lambda>e. (e_source e, e_target e)) (edges d)))
        (confirmDelete 2 (mkNode ''m'' [] Machine ''running'' 0) rootEdgeDb)
     = Some ([''x''], [(''m'', ''x'')])"
  by (simp add: rootEdgeDb_def emptyDb_def mkNode_def Let_def
      confirmDelete_def deleteOwnRows_def numeral_2_eq_2)

text \<open>
  The tables after handleDeleteNode: of the nodes, the rows that go are the node and the
  rows whose id is that of one of its children; of the problems and the victory
  conditions, those of the node.
\<close>

lemma fold_delete_nodes:
  "nodes (fold (\<lambda>c d'. d'\<lparr>nodes := filter (\<lambda>n. n_id n \<noteq> n_id c) (nodes d')\<rparr>) cs d)
   = filter (\<lambda>n. n_id n \<notin> n_id ` set cs) (nodes d)"
proof (induction cs arbitrary: d)
  case Nil
  then show ?case by simp
next
  case (Cons c cs)
  show ?case
    unfolding fold_simps Cons.IH
    by (simp add: conj_commute)
qed

lemma fold_delete_nodes_rest:
  "edges (fold (\<lambda>c d'. d'\<lparr>nodes := filter (\<lambda>n. n_id n \<noteq> n_id c) (nodes d')\<rparr>) cs d) = edges d"
  "problems (fold (\<lambda>c d'. d'\<lparr>nodes := filter (\<lambda>n. n_id n \<noteq> n_id c) (nodes d')\<rparr>) cs d) = problems d"
  "victoryConditions (fold (\<lambda>c d'. d'\<lparr>nodes := filter (\<lambda>n. n_id n \<noteq> n_id c) (nodes d')\<rparr>) cs d)
     = victoryConditions d"
  by (induction cs arbitrary: d) simp_all

lemma fold_delete_edges_rest:
  "nodes (fold (\<lambda>item d'. d'\<lparr>edges := filter (\<lambda>e. e_id e \<noteq> e_id item) (edges d')\<rparr>) es d) = nodes d"
  "problems (fold (\<lambda>item d'. d'\<lparr>edges := filter (\<lambda>e. e_id e \<noteq> e_id item) (edges d')\<rparr>) es d) = problems d"
  "victoryConditions (fold (\<lambda>item d'. d'\<lparr>edges := filter (\<lambda>e. e_id e \<noteq> e_id item) (edges d')\<rparr>) es d)
     = victoryConditions d"
  by (induction es arbitrary: d) simp_all

lemma handleDeleteNode_nodes:
  "nodes (fst (handleDeleteNode uuid now nodeId (d, i)))
   = filter (\<lambda>n. n_id n \<noteq> nodeId
                \<and> n_id n \<notin> n_id ` set (filter (\<lambda>c. n_parentId c = nodeId) (nodes d)))
       (nodes d)"
  by (simp add: handleDeleteNode_def Let_def fold_delete_edges_rest fold_delete_nodes conj_commute)

lemma handleDeleteNode_problems:
  "problems (fst (handleDeleteNode uuid now nodeId (d, i)))
   = filter (\<lambda>p. p_machineNodeId p \<noteq> nodeId) (problems d)"
  by (simp add: handleDeleteNode_def Let_def fold_delete_edges_rest fold_delete_nodes_rest)

lemma handleDeleteNode_victoryConditions:
  "victoryConditions (fst (handleDeleteNode uuid now nodeId (d, i)))
   = filter (\<lambda>v. vc_machineNodeId v \<noteq> nodeId) (victoryConditions d)"
  by (simp add: handleDeleteNode_def Let_def fold_delete_edges_rest fold_delete_nodes_rest)

text \<open>
  So, in a store with distinct node ids, a child of the node goes and every row that is
  neither the node nor a child of it stays: a grandchild stays, its parentId the id of a
  row that is gone.
\<close>

lemma handleDeleteNode_keeps_grandchild:
  assumes dist: "distinct (map n_id (nodes d))"
    and c: "c \<in> set (nodes d)" "n_parentId c = nodeId"
    and g: "g \<in> set (nodes d)" "n_parentId g = n_id c"
    and ne: "n_id c \<noteq> nodeId" "n_id g \<noteq> nodeId"
  shows "g \<in> set (nodes (fst (handleDeleteNode uuid now nodeId (d, i))))"
    and "n_id c \<notin> n_id ` set (nodes (fst (handleDeleteNode uuid now nodeId (d, i))))"
proof -
  have inj: "inj_on n_id (set (nodes d))" using dist by (simp add: distinct_map)
  have "n_id g \<noteq> n_id c'" if c': "c' \<in> set (nodes d)" "n_parentId c' = nodeId" for c'
  proof
    assume "n_id g = n_id c'"
    then have "g = c'" using inj g(1) c'(1) by (auto dest: inj_onD)
    then show False using g(2) c'(2) ne(1) by simp
  qed
  then show "g \<in> set (nodes (fst (handleDeleteNode uuid now nodeId (d, i))))"
    using g(1) ne(2) by (auto simp add: handleDeleteNode_nodes)
  have "n_id c \<in> n_id ` set (filter (\<lambda>c. n_parentId c = nodeId) (nodes d))"
    using c by simp
  then show "n_id c \<notin> n_id ` set (nodes (fst (handleDeleteNode uuid now nodeId (d, i))))"
    unfolding handleDeleteNode_nodes by force
qed

text \<open>
  C1. The whiteboard of the root m shows p and q, so its context menu can ask for the
  delete of p. handleDeleteNode on p in the four-level store removes p and its children
  c and c2 and the edge between p and q. It leaves the grandchild g, its parentId c now
  dangling, the edge of p's level between c and c2, and the problem and the victory
  condition of c: rows that reference ids of former descendants of p.
\<close>

theorem handleDeleteNode_leaves_descendants:
  "map n_id (canvasNodes ''m'' fourLevelDb) = [''p'', ''q'']
   \<and> map (\<lambda>n. (n_id n, n_parentId n)) (nodes (fst (handleDeleteNode uuid now ''p'' (fourLevelDb, i))))
     = [(''m'', []), (''q'', ''m''), (''g'', ''c'')]
   \<and> map (\<lambda>e. (e_parentId e, e_source e, e_target e))
        (edges (fst (handleDeleteNode uuid now ''p'' (fourLevelDb, i))))
     = [(''p'', ''c'', ''c2'')]
   \<and> map p_machineNodeId (problems (fst (handleDeleteNode uuid now ''p'' (fourLevelDb, i)))) = [''c'']
   \<and> map vc_machineNodeId (victoryConditions (fst (handleDeleteNode uuid now ''p'' (fourLevelDb, i))))
     = [''c'']"
  by (simp add: canvasNodes_def handleDeleteNode_def fourLevelDb_def emptyDb_def mkNode_def Let_def)

section \<open>Claims about subtree duplication\<close>

subsection \<open>The loops over the edges and the victory conditions of a level\<close>

lemma cloneEdgeRows_effect:
  "cs_db (cloneEdgeRows uuid newId es s)
     = (cs_db s)\<lparr>edges := edges (cs_db s) @
          map2 (\<lambda>e j. cloneEdge (cs_idMap s) newId (uuid j) e) es [cs_next s..<cs_next s + length es]\<rparr>
   \<and> cs_next (cloneEdgeRows uuid newId es s) = cs_next s + length es
   \<and> cs_idMap (cloneEdgeRows uuid newId es s) = cs_idMap s"
proof (induction es arbitrary: s)
  case Nil
  then show ?case by simp
next
  case (Cons e es)
  have up: "[cs_next s..<cs_next s + length (e # es)] = cs_next s # [Suc (cs_next s)..<Suc (cs_next s) + length es]"
    by (simp add: upt_rec)
  show ?case
    unfolding cloneEdgeRows.simps up
    by (simp add: Cons.IH)
qed

lemma cloneVictoryConditionRows_effect:
  "cs_db (cloneVictoryConditionRows uuid newId vs s)
     = (cs_db s)\<lparr>victoryConditions := victoryConditions (cs_db s) @
          map2 (\<lambda>v j. v\<lparr>vc_id := uuid j, vc_machineNodeId := newId\<rparr>) vs [cs_next s..<cs_next s + length vs]\<rparr>
   \<and> cs_next (cloneVictoryConditionRows uuid newId vs s) = cs_next s + length vs
   \<and> cs_idMap (cloneVictoryConditionRows uuid newId vs s) = cs_idMap s"
proof (induction vs arbitrary: s)
  case Nil
  then show ?case by simp
next
  case (Cons v vs)
  have up: "[cs_next s..<cs_next s + length (v # vs)] = cs_next s # [Suc (cs_next s)..<Suc (cs_next s) + length vs]"
    by (simp add: upt_rec)
  show ?case
    unfolding cloneVictoryConditionRows.simps up
    by (simp add: Cons.IH)
qed


lemma cloneEdges_effect:
  "edges (cs_db (cloneEdges uuid nodeId newId s))
     = edges (cs_db s) @ map2 (\<lambda>e j. cloneEdge (cs_idMap s) newId (uuid j) e) (levelEdges nodeId s)
          [cs_next s..<cs_next s + length (levelEdges nodeId s)]"
  by (simp add: cloneEdges_def levelEdges_def cloneEdgeRows_effect)

lemma cloneVictoryConditions_edges:
  "edges (cs_db (cloneVictoryConditions uuid nodeId newId s)) = edges (cs_db s)"
  by (simp add: cloneVictoryConditions_def cloneVictoryConditionRows_effect)

lemma cloneRecursive_found:
  assumes "cloneRecursive uuid now (Suc k) nodeId newParentId s = Some s'"
    and "find (\<lambda>n. n_id n = nodeId) (nodes (cs_db s)) = Some node"
  shows "\<exists>s2. cloneChildren uuid now k
            (filter (\<lambda>n. n_parentId n = nodeId) (nodes (cs_db (addClone uuid now nodeId newParentId node s))))
            (uuid (cs_next s)) (addClone uuid now nodeId newParentId node s) = Some s2
          \<and> s' = cloneVictoryConditions uuid nodeId (uuid (cs_next s)) (cloneEdges uuid nodeId (uuid (cs_next s)) s2)"
  using assms by (simp add: Let_def split: option.splits)

lemma cloneRecursive_fuel:
  "cloneRecursive uuid now k nodeId newParentId s = Some s' \<Longrightarrow>
     cloneRecursive uuid now (Suc k) nodeId newParentId s = Some s'"
  and cloneChildren_fuel:
  "cloneChildren uuid now k cs newId s = Some s' \<Longrightarrow> cloneChildren uuid now (Suc k) cs newId s = Some s'"
proof (induction uuid now k nodeId newParentId s and uuid now k cs newId s arbitrary: s' and s'
    rule: cloneRecursive_cloneChildren.induct)
  case (1 uuid now nodeId newParentId s)
  then show ?case by simp
next
  case (2 uuid now k nodeId newParentId s)
  show ?case
  proof (cases "find (\<lambda>n. n_id n = nodeId) (nodes (cs_db s))")
    case None
    then show ?thesis using "2.prems" by simp
  next
    case (Some node)
    let ?s1 = "addClone uuid now nodeId newParentId node s"
    from cloneRecursive_found [OF "2.prems" Some] obtain s2 where
      s2: "cloneChildren uuid now k (filter (\<lambda>n. n_parentId n = nodeId) (nodes (cs_db ?s1)))
             (uuid (cs_next s)) ?s1 = Some s2"
      and s': "s' = cloneVictoryConditions uuid nodeId (uuid (cs_next s)) (cloneEdges uuid nodeId (uuid (cs_next s)) s2)"
      by blast
    have "cloneChildren uuid now (Suc k) (filter (\<lambda>n. n_parentId n = nodeId) (nodes (cs_db ?s1)))
             (uuid (cs_next s)) ?s1 = Some s2"
      using "2.IH" [OF Some refl refl s2] .
    then show ?thesis using Some s' by (simp add: Let_def)
  qed
next
  case (3 uuid now k newId s)
  then show ?case by simp
next
  case (4 uuid now k child cs newId s)
  from "4.prems" obtain s1 where
    s1: "cloneRecursive uuid now k (n_id child) newId s = Some s1"
    and r: "cloneChildren uuid now k cs newId s1 = Some s'"
    by (auto split: option.splits)
  show ?case using "4.IH"(1) [OF s1] "4.IH"(2) [OF s1 r] by simp
qed


lemma translateId_cases:
  "translateId idMap x = (if idMap x = None \<or> idMap x = Some [] then x else the (idMap x))"
  by (simp add: translateId_def orElse_def split: option.splits)

subsection \<open>Duplication only adds rows\<close>

lemma onlyAddsI:
  assumes "cs_next s \<le> cs_next s'"
    and "nodes (cs_db s') = nodes (cs_db s) @ nn"
    and "edges (cs_db s') = edges (cs_db s) @ ne"
    and "victoryConditions (cs_db s') = victoryConditions (cs_db s) @ nv"
    and "n_id ` set nn \<subseteq> uuid ` {cs_next s..<cs_next s'}"
    and "st_id ` (\<Union>n \<in> set nn. set (n_steps n)) \<subseteq> uuid ` {cs_next s..<cs_next s'}"
    and "e_id ` set ne \<subseteq> uuid ` {cs_next s..<cs_next s'}"
    and "vc_id ` set nv \<subseteq> uuid ` {cs_next s..<cs_next s'}"
    and "problems (cs_db s') = problems (cs_db s)"
    and "statusChanges (cs_db s') = statusChanges (cs_db s)"
    and "captures (cs_db s') = captures (cs_db s)"
    and "events (cs_db s') = events (cs_db s)"
  shows "onlyAdds uuid s s'"
  unfolding onlyAdds_def using assms by blast

lemma onlyAdds_refl: "onlyAdds uuid s s"
  by (simp add: onlyAdds_def)

lemma onlyAdds_trans:
  assumes "onlyAdds uuid a b" and "onlyAdds uuid b c"
  shows "onlyAdds uuid a c"
proof -
  from assms(1) have ab: "cs_next a \<le> cs_next b"
    and abx: "\<exists>nn ne nv.
           nodes (cs_db b) = nodes (cs_db a) @ nn
           \<and> edges (cs_db b) = edges (cs_db a) @ ne
           \<and> victoryConditions (cs_db b) = victoryConditions (cs_db a) @ nv
           \<and> n_id ` set nn \<subseteq> uuid ` {cs_next a..<cs_next b}
           \<and> st_id ` (\<Union>n \<in> set nn. set (n_steps n)) \<subseteq> uuid ` {cs_next a..<cs_next b}
           \<and> e_id ` set ne \<subseteq> uuid ` {cs_next a..<cs_next b}
           \<and> vc_id ` set nv \<subseteq> uuid ` {cs_next a..<cs_next b}"
    and abr: "problems (cs_db b) = problems (cs_db a)" "statusChanges (cs_db b) = statusChanges (cs_db a)"
      "captures (cs_db b) = captures (cs_db a)" "events (cs_db b) = events (cs_db a)"
    by (simp_all add: onlyAdds_def)
  from assms(2) have bc: "cs_next b \<le> cs_next c"
    and bcx: "\<exists>nn ne nv.
           nodes (cs_db c) = nodes (cs_db b) @ nn
           \<and> edges (cs_db c) = edges (cs_db b) @ ne
           \<and> victoryConditions (cs_db c) = victoryConditions (cs_db b) @ nv
           \<and> n_id ` set nn \<subseteq> uuid ` {cs_next b..<cs_next c}
           \<and> st_id ` (\<Union>n \<in> set nn. set (n_steps n)) \<subseteq> uuid ` {cs_next b..<cs_next c}
           \<and> e_id ` set ne \<subseteq> uuid ` {cs_next b..<cs_next c}
           \<and> vc_id ` set nv \<subseteq> uuid ` {cs_next b..<cs_next c}"
    and bcr: "problems (cs_db c) = problems (cs_db b)" "statusChanges (cs_db c) = statusChanges (cs_db b)"
      "captures (cs_db c) = captures (cs_db b)" "events (cs_db c) = events (cs_db b)"
    by (simp_all add: onlyAdds_def)
  from abx obtain nn ne nv where 1:
    "nodes (cs_db b) = nodes (cs_db a) @ nn"
    "edges (cs_db b) = edges (cs_db a) @ ne"
    "victoryConditions (cs_db b) = victoryConditions (cs_db a) @ nv"
    "n_id ` set nn \<subseteq> uuid ` {cs_next a..<cs_next b}"
    "st_id ` (\<Union>n \<in> set nn. set (n_steps n)) \<subseteq> uuid ` {cs_next a..<cs_next b}"
    "e_id ` set ne \<subseteq> uuid ` {cs_next a..<cs_next b}"
    "vc_id ` set nv \<subseteq> uuid ` {cs_next a..<cs_next b}"
    by (elim exE conjE)
  from bcx obtain nn' ne' nv' where 2:
    "nodes (cs_db c) = nodes (cs_db b) @ nn'"
    "edges (cs_db c) = edges (cs_db b) @ ne'"
    "victoryConditions (cs_db c) = victoryConditions (cs_db b) @ nv'"
    "n_id ` set nn' \<subseteq> uuid ` {cs_next b..<cs_next c}"
    "st_id ` (\<Union>n \<in> set nn'. set (n_steps n)) \<subseteq> uuid ` {cs_next b..<cs_next c}"
    "e_id ` set ne' \<subseteq> uuid ` {cs_next b..<cs_next c}"
    "vc_id ` set nv' \<subseteq> uuid ` {cs_next b..<cs_next c}"
    by (elim exE conjE)
  have i1: "uuid ` {cs_next a..<cs_next b} \<subseteq> uuid ` {cs_next a..<cs_next c}"
    using bc by (intro image_mono) auto
  have i2: "uuid ` {cs_next b..<cs_next c} \<subseteq> uuid ` {cs_next a..<cs_next c}"
    using ab by (intro image_mono) auto
  have n: "nodes (cs_db c) = nodes (cs_db a) @ (nn @ nn')" using 1(1) 2(1) by simp
  have e: "edges (cs_db c) = edges (cs_db a) @ (ne @ ne')" using 1(2) 2(2) by simp
  have v: "victoryConditions (cs_db c) = victoryConditions (cs_db a) @ (nv @ nv')" using 1(3) 2(3) by simp
  have "n_id ` set (nn @ nn') = n_id ` set nn \<union> n_id ` set nn'" by (simp add: image_Un)
  then have n1: "n_id ` set (nn @ nn') \<subseteq> uuid ` {cs_next a..<cs_next c}"
    using subset_trans [OF 1(4) i1] subset_trans [OF 2(4) i2] by simp
  have "st_id ` (\<Union>n \<in> set (nn @ nn'). set (n_steps n))
        = st_id ` (\<Union>n \<in> set nn. set (n_steps n)) \<union> st_id ` (\<Union>n \<in> set nn'. set (n_steps n))"
    by (simp add: image_Un)
  then have s1: "st_id ` (\<Union>n \<in> set (nn @ nn'). set (n_steps n)) \<subseteq> uuid ` {cs_next a..<cs_next c}"
    using subset_trans [OF 1(5) i1] subset_trans [OF 2(5) i2] by simp
  have "e_id ` set (ne @ ne') = e_id ` set ne \<union> e_id ` set ne'" by (simp add: image_Un)
  then have e1: "e_id ` set (ne @ ne') \<subseteq> uuid ` {cs_next a..<cs_next c}"
    using subset_trans [OF 1(6) i1] subset_trans [OF 2(6) i2] by simp
  have "vc_id ` set (nv @ nv') = vc_id ` set nv \<union> vc_id ` set nv'" by (simp add: image_Un)
  then have v1: "vc_id ` set (nv @ nv') \<subseteq> uuid ` {cs_next a..<cs_next c}"
    using subset_trans [OF 1(7) i1] subset_trans [OF 2(7) i2] by simp
  have le: "cs_next a \<le> cs_next c" using ab bc by simp
  show ?thesis
    by (rule onlyAddsI [OF le n e v n1 s1 e1 v1]) (simp_all add: abr bcr)
qed

lemma cloneSteps_ids: "st_id ` set (cloneSteps uuid i ss) \<subseteq> uuid ` {i..<i + length ss}"
proof (induction ss arbitrary: i)
  case Nil
  then show ?case by simp
next
  case (Cons s ss)
  have "st_id ` set (cloneSteps uuid (Suc i) ss) \<subseteq> uuid ` {Suc i..<Suc i + length ss}"
    by (rule Cons.IH)
  also have "\<dots> \<subseteq> uuid ` {i..<i + length (s # ss)}"
    by (intro image_mono) auto
  finally show ?case by auto
qed

lemma onlyAdds_addClone: "onlyAdds uuid s (addClone uuid now nodeId newParentId node s)"
proof -
  let ?c = "cloneNode uuid now (cs_next s) newParentId node"
  let ?hi = "Suc (cs_next s) + length (n_steps node)"
  have id: "n_id ` set [?c] \<subseteq> uuid ` {cs_next s..<?hi}"
    by (simp add: cloneNode_def)
  have "st_id ` set (n_steps ?c) \<subseteq> uuid ` {Suc (cs_next s)..<?hi}"
    using cloneSteps_ids [of uuid "Suc (cs_next s)" "n_steps node"] by (simp add: cloneNode_def)
  also have "\<dots> \<subseteq> uuid ` {cs_next s..<?hi}" by (intro image_mono) auto
  finally have st: "st_id ` (\<Union>n \<in> set [?c]. set (n_steps n)) \<subseteq> uuid ` {cs_next s..<?hi}" by simp
  show ?thesis
    by (rule onlyAddsI [where nn = "[?c]" and ne = "[]" and nv = "[]"])
       (use id st in \<open>simp_all add: addClone_def\<close>)
qed

lemma map2_ids_upt:
  "f ` set (map2 g xs [i..<i + length xs]) \<subseteq> uuid ` {i..<i + length xs}"
  if "\<And>x j. f (g x j) = uuid j"
proof
  fix y assume "y \<in> f ` set (map2 g xs [i..<i + length xs])"
  then obtain x j where "(x, j) \<in> set (zip xs [i..<i + length xs])" and y: "y = f (g x j)"
    by auto
  then have "j \<in> set [i..<i + length xs]" by (meson set_zip_rightD)
  then show "y \<in> uuid ` {i..<i + length xs}" using y that by auto
qed

lemma onlyAdds_cloneEdges: "onlyAdds uuid s (cloneEdges uuid nodeId newId s)"
proof -
  let ?es = "filter (\<lambda>e. e_parentId e = nodeId) (edges (cs_db s))"
  let ?ne = "map2 (\<lambda>e j. cloneEdge (cs_idMap s) newId (uuid j) e) ?es [cs_next s..<cs_next s + length ?es]"
  have ids: "e_id ` set ?ne \<subseteq> uuid ` {cs_next s..<cs_next s + length ?es}"
    by (rule map2_ids_upt) (simp add: cloneEdge_def)
  show ?thesis
    unfolding cloneEdges_def
    by (rule onlyAddsI [where nn = "[]" and ne = ?ne and nv = "[]"])
       (use ids in \<open>simp_all add: cloneEdgeRows_effect\<close>)
qed

lemma onlyAdds_cloneVictoryConditions: "onlyAdds uuid s (cloneVictoryConditions uuid nodeId newId s)"
proof -
  let ?vs = "filter (\<lambda>v. vc_machineNodeId v = nodeId) (victoryConditions (cs_db s))"
  let ?nv = "map2 (\<lambda>v j. v\<lparr>vc_id := uuid j, vc_machineNodeId := newId\<rparr>) ?vs [cs_next s..<cs_next s + length ?vs]"
  have ids: "vc_id ` set ?nv \<subseteq> uuid ` {cs_next s..<cs_next s + length ?vs}"
    by (rule map2_ids_upt) simp
  show ?thesis
    unfolding cloneVictoryConditions_def
    by (rule onlyAddsI [where nn = "[]" and ne = "[]" and nv = ?nv])
       (use ids in \<open>simp_all add: cloneVictoryConditionRows_effect\<close>)
qed

lemma cloneRecursive_onlyAdds:
  "cloneRecursive uuid now k nodeId newParentId s = Some s' \<Longrightarrow> onlyAdds uuid s s'"
  and cloneChildren_onlyAdds:
  "cloneChildren uuid now k cs newId s = Some s' \<Longrightarrow> onlyAdds uuid s s'"
proof (induction uuid now k nodeId newParentId s and uuid now k cs newId s arbitrary: s' and s'
    rule: cloneRecursive_cloneChildren.induct)
  case (1 uuid now nodeId newParentId s)
  then show ?case by simp
next
  case (2 uuid now k nodeId newParentId s)
  show ?case
  proof (cases "find (\<lambda>n. n_id n = nodeId) (nodes (cs_db s))")
    case None
    then show ?thesis using "2.prems" by (simp add: onlyAdds_refl)
  next
    case (Some node)
    let ?s1 = "addClone uuid now nodeId newParentId node s"
    from cloneRecursive_found [OF "2.prems" Some] obtain s2 where
      s2: "cloneChildren uuid now k (filter (\<lambda>n. n_parentId n = nodeId) (nodes (cs_db ?s1)))
             (uuid (cs_next s)) ?s1 = Some s2"
      and s': "s' = cloneVictoryConditions uuid nodeId (uuid (cs_next s)) (cloneEdges uuid nodeId (uuid (cs_next s)) s2)"
      by blast
    have a: "onlyAdds uuid s ?s1" by (rule onlyAdds_addClone)
    have b: "onlyAdds uuid ?s1 s2" using "2.IH" [OF Some refl refl s2] .
    have c: "onlyAdds uuid s2 (cloneEdges uuid nodeId (uuid (cs_next s)) s2)" by (rule onlyAdds_cloneEdges)
    have d: "onlyAdds uuid (cloneEdges uuid nodeId (uuid (cs_next s)) s2) s'"
      unfolding s' by (rule onlyAdds_cloneVictoryConditions)
    show ?thesis using a b c d by (blast intro: onlyAdds_trans)
  qed
next
  case (3 uuid now k newId s)
  then show ?case by (simp add: onlyAdds_refl)
next
  case (4 uuid now k child cs newId s)
  from "4.prems" obtain s1 where
    s1: "cloneRecursive uuid now k (n_id child) newId s = Some s1"
    and r: "cloneChildren uuid now k cs newId s1 = Some s'"
    by (auto split: option.splits)
  show ?case
    using "4.IH"(1) [OF s1] "4.IH"(2) [OF s1 r] by (rule onlyAdds_trans)
qed


subsection \<open>The edges of a cloned level\<close>

lemma onlyAdds_edges:
  "onlyAdds uuid s s' \<Longrightarrow> set (edges (cs_db s)) \<subseteq> set (edges (cs_db s'))"
  by (auto simp add: onlyAdds_def)

lemma in_zip_upt:
  "x \<in> set xs \<Longrightarrow> \<exists>j. (x, j) \<in> set (zip xs [i..<i + length xs])"
  by (metis add_diff_cancel_left' in_set_impl_in_set_zip1 length_upt)

lemma cloneRecursive_level_edges:
  "cloneRecursive uuid now (Suc k) nodeId newParentId s = Some s'
   \<and> find (\<lambda>n. n_id n = nodeId) (nodes (cs_db s)) = Some node \<longrightarrow>
     (\<exists>s2. cloneChildren uuid now k
            (filter (\<lambda>n. n_parentId n = nodeId) (nodes (cs_db (addClone uuid now nodeId newParentId node s))))
            (uuid (cs_next s)) (addClone uuid now nodeId newParentId node s) = Some s2
        \<and> edges (cs_db s')
            = edges (cs_db s2) @
              map2 (\<lambda>e j. cloneEdge (cs_idMap s2) (uuid (cs_next s)) (uuid j) e)
                (levelEdges nodeId s2) [cs_next s2..<cs_next s2 + length (levelEdges nodeId s2)]
        \<and> (\<forall>e. e \<in> set (levelEdges nodeId s) \<longrightarrow>
              (\<exists>j. cloneEdge (cs_idMap s2) (uuid (cs_next s)) (uuid j) e
                     \<in> set (drop (length (edges (cs_db s2))) (edges (cs_db s')))))
        \<and> (\<forall>x. cs_idMap s2 x = None \<longrightarrow> translateId (cs_idMap s2) x = x)
        \<and> (\<forall>x y. cs_idMap s2 x = Some y \<and> y \<noteq> [] \<longrightarrow> translateId (cs_idMap s2) x = y))"
proof (intro impI, elim conjE)
  assume run: "cloneRecursive uuid now (Suc k) nodeId newParentId s = Some s'"
    and found: "find (\<lambda>n. n_id n = nodeId) (nodes (cs_db s)) = Some node"
  let ?s1 = "addClone uuid now nodeId newParentId node s"
  let ?newId = "uuid (cs_next s)"
  from cloneRecursive_found [OF run found] obtain s2 where
    s2: "cloneChildren uuid now k (filter (\<lambda>n. n_parentId n = nodeId) (nodes (cs_db ?s1))) ?newId ?s1 = Some s2"
    and s': "s' = cloneVictoryConditions uuid nodeId ?newId (cloneEdges uuid nodeId ?newId s2)"
    by blast
  let ?new = "map2 (\<lambda>e j. cloneEdge (cs_idMap s2) ?newId (uuid j) e)
                (levelEdges nodeId s2) [cs_next s2..<cs_next s2 + length (levelEdges nodeId s2)]"
  have e: "edges (cs_db s') = edges (cs_db s2) @ ?new"
    unfolding s' cloneVictoryConditions_edges cloneEdges_effect ..
  have "onlyAdds uuid s s2"
    using onlyAdds_addClone cloneChildren_onlyAdds [OF s2] by (rule onlyAdds_trans)
  then have sub: "set (levelEdges nodeId s) \<subseteq> set (levelEdges nodeId s2)"
    using onlyAdds_edges by (auto simp add: levelEdges_def)
  have kept: "\<exists>j. cloneEdge (cs_idMap s2) ?newId (uuid j) x \<in> set (drop (length (edges (cs_db s2))) (edges (cs_db s')))"
    if "x \<in> set (levelEdges nodeId s)" for x
  proof -
    from that sub have "x \<in> set (levelEdges nodeId s2)" by blast
    from in_zip_upt [OF this, of "cs_next s2"] obtain j where
      "(x, j) \<in> set (zip (levelEdges nodeId s2) [cs_next s2..<cs_next s2 + length (levelEdges nodeId s2)])"
      by blast
    then have "cloneEdge (cs_idMap s2) ?newId (uuid j) x \<in> set ?new"
      by (force simp add: image_iff)
    moreover have "drop (length (edges (cs_db s2))) (edges (cs_db s')) = ?new"
      unfolding e by simp
    ultimately show ?thesis by (intro exI [of _ j]) simp
  qed
  have t1: "\<forall>x. cs_idMap s2 x = None \<longrightarrow> translateId (cs_idMap s2) x = x"
    by (simp add: translateId_def)
  have t2: "\<forall>x y. cs_idMap s2 x = Some y \<and> y \<noteq> [] \<longrightarrow> translateId (cs_idMap s2) x = y"
    by (simp add: translateId_def orElse_def)
  show "\<exists>s2. cloneChildren uuid now k (filter (\<lambda>n. n_parentId n = nodeId) (nodes (cs_db ?s1))) ?newId ?s1 = Some s2
        \<and> edges (cs_db s')
            = edges (cs_db s2) @
              map2 (\<lambda>e j. cloneEdge (cs_idMap s2) ?newId (uuid j) e)
                (levelEdges nodeId s2) [cs_next s2..<cs_next s2 + length (levelEdges nodeId s2)]
        \<and> (\<forall>e. e \<in> set (levelEdges nodeId s) \<longrightarrow>
              (\<exists>j. cloneEdge (cs_idMap s2) ?newId (uuid j) e
                     \<in> set (drop (length (edges (cs_db s2))) (edges (cs_db s')))))
        \<and> (\<forall>x. cs_idMap s2 x = None \<longrightarrow> translateId (cs_idMap s2) x = x)
        \<and> (\<forall>x y. cs_idMap s2 x = Some y \<and> y \<noteq> [] \<longrightarrow> translateId (cs_idMap s2) x = y)"
  proof (intro exI [of _ s2] conjI)
    show "cloneChildren uuid now k (filter (\<lambda>n. n_parentId n = nodeId) (nodes (cs_db ?s1))) ?newId ?s1 = Some s2"
      by (rule s2)
    show "edges (cs_db s') = edges (cs_db s2) @ ?new" by (rule e)
    show "\<forall>e. e \<in> set (levelEdges nodeId s) \<longrightarrow>
              (\<exists>j. cloneEdge (cs_idMap s2) ?newId (uuid j) e
                     \<in> set (drop (length (edges (cs_db s2))) (edges (cs_db s'))))"
      using kept by blast
    show "\<forall>x. cs_idMap s2 x = None \<longrightarrow> translateId (cs_idMap s2) x = x" by (rule t1)
    show "\<forall>x y. cs_idMap s2 x = Some y \<and> y \<noteq> [] \<longrightarrow> translateId (cs_idMap s2) x = y" by (rule t2)
  qed
qed

subsection \<open>The edges of a whole duplication\<close>

lemma cloneInvI:
  assumes "i \<le> cs_next s" and "nodes (cs_db s) = nodes d @ nn" and "edges (cs_db s) = edges d @ ne"
    and "\<forall>n \<in> set nn. n_parentId n \<in> insert [] (uuid ` {i..})"
    and "\<forall>e \<in> set ne. e_parentId e \<in> uuid ` {i..}"
  shows "cloneInv uuid i d s"
  unfolding cloneInv_def using assms by blast

lemma cloneInvE:
  assumes "cloneInv uuid i d s"
  obtains nn ne where "i \<le> cs_next s" and "nodes (cs_db s) = nodes d @ nn" and "edges (cs_db s) = edges d @ ne"
    and "\<forall>n \<in> set nn. n_parentId n \<in> insert [] (uuid ` {i..})"
    and "\<forall>e \<in> set ne. e_parentId e \<in> uuid ` {i..}"
  using assms unfolding cloneInv_def by blast

text \<open>
  A node whose id is neither empty nor a uuid of the run keeps, all along the duplication,
  the children and the level edges it has in the store being duplicated.
\<close>

lemma cloneInv_children:
  assumes inv: "cloneInv uuid i d s"
    and x: "x \<noteq> []" "x \<notin> uuid ` {i..}"
  shows "filter (\<lambda>n. n_parentId n = x) (nodes (cs_db s)) = filter (\<lambda>n. n_parentId n = x) (nodes d)"
    and "levelEdges x s = filter (\<lambda>e. e_parentId e = x) (edges d)"
proof -
  from inv obtain nn ne where n: "nodes (cs_db s) = nodes d @ nn" and e: "edges (cs_db s) = edges d @ ne"
    and np: "\<forall>n \<in> set nn. n_parentId n \<in> insert [] (uuid ` {i..})"
    and ep: "\<forall>e \<in> set ne. e_parentId e \<in> uuid ` {i..}"
    by (rule cloneInvE)
  have "filter (\<lambda>n. n_parentId n = x) nn = []"
    using np x by (auto simp add: filter_empty_conv)
  then show "filter (\<lambda>n. n_parentId n = x) (nodes (cs_db s)) = filter (\<lambda>n. n_parentId n = x) (nodes d)"
    by (simp add: n)
  have "filter (\<lambda>e. e_parentId e = x) ne = []"
    using ep x by (auto simp add: filter_empty_conv)
  then show "levelEdges x s = filter (\<lambda>e. e_parentId e = x) (edges d)"
    by (simp add: levelEdges_def e)
qed

lemma cloneInv_addClone:
  assumes inv: "cloneInv uuid i d s" and p: "p \<in> insert [] (uuid ` {i..})"
  shows "cloneInv uuid i d (addClone uuid now x p node s)"
proof -
  from inv obtain nn ne where le: "i \<le> cs_next s"
    and n: "nodes (cs_db s) = nodes d @ nn" and e: "edges (cs_db s) = edges d @ ne"
    and np: "\<forall>n \<in> set nn. n_parentId n \<in> insert [] (uuid ` {i..})"
    and ep: "\<forall>e \<in> set ne. e_parentId e \<in> uuid ` {i..}"
    by (rule cloneInvE)
  show ?thesis
    by (rule cloneInvI [where nn = "nn @ [cloneNode uuid now (cs_next s) p node]" and ne = ne])
       (use le n e np ep p in \<open>auto simp add: addClone_def cloneNode_def\<close>)
qed

lemma cloneInv_cloneEdges:
  assumes inv: "cloneInv uuid i d s" and newId: "newId \<in> uuid ` {i..}"
  shows "cloneInv uuid i d (cloneEdges uuid x newId s)"
proof -
  from inv obtain nn ne where le: "i \<le> cs_next s"
    and n: "nodes (cs_db s) = nodes d @ nn" and e: "edges (cs_db s) = edges d @ ne"
    and np: "\<forall>n \<in> set nn. n_parentId n \<in> insert [] (uuid ` {i..})"
    and ep: "\<forall>e \<in> set ne. e_parentId e \<in> uuid ` {i..}"
    by (rule cloneInvE)
  let ?new = "map2 (\<lambda>e j. cloneEdge (cs_idMap s) newId (uuid j) e) (levelEdges x s)
                [cs_next s..<cs_next s + length (levelEdges x s)]"
  have par: "\<forall>e \<in> set ?new. e_parentId e = newId"
    by (auto simp add: cloneEdge_def)
  show ?thesis
  proof (rule cloneInvI [where nn = nn and ne = "ne @ ?new"])
    show "i \<le> cs_next (cloneEdges uuid x newId s)"
      using le by (simp add: cloneEdges_def cloneEdgeRows_effect)
    show "nodes (cs_db (cloneEdges uuid x newId s)) = nodes d @ nn"
      using n by (simp add: cloneEdges_def cloneEdgeRows_effect)
    show "edges (cs_db (cloneEdges uuid x newId s)) = edges d @ ne @ ?new"
      using e by (simp add: cloneEdges_effect)
    show "\<forall>n \<in> set nn. n_parentId n \<in> insert [] (uuid ` {i..})" by (rule np)
    show "\<forall>e \<in> set (ne @ ?new). e_parentId e \<in> uuid ` {i..}"
      using ep par newId by auto
  qed
qed

lemma cloneInv_cloneVictoryConditions:
  assumes inv: "cloneInv uuid i d s"
  shows "cloneInv uuid i d (cloneVictoryConditions uuid x newId s)"
proof -
  from inv obtain nn ne where le: "i \<le> cs_next s"
    and n: "nodes (cs_db s) = nodes d @ nn" and e: "edges (cs_db s) = edges d @ ne"
    and np: "\<forall>n \<in> set nn. n_parentId n \<in> insert [] (uuid ` {i..})"
    and ep: "\<forall>e \<in> set ne. e_parentId e \<in> uuid ` {i..}"
    by (rule cloneInvE)
  show ?thesis
    by (rule cloneInvI [where nn = nn and ne = ne])
       (use le n e np ep in \<open>simp_all add: cloneVictoryConditions_def cloneVictoryConditionRows_effect\<close>)
qed

lemma cloneRecursive_edge_count:
  "cloneRecursive uuid now k x p s = Some s' \<Longrightarrow> cloneInv uuid i d s \<Longrightarrow>
     x \<in> n_id ` set (nodes d) \<Longrightarrow> p \<in> insert [] (uuid ` {i..}) \<Longrightarrow>
     (\<forall>n \<in> set (nodes d). n_id n \<noteq> [] \<and> n_id n \<notin> uuid ` {i..}) \<Longrightarrow>
     cloneInv uuid i d s'
     \<and> (\<exists>L. descendantRows k d x = Some L
            \<and> length (edges (cs_db s')) = length (edges (cs_db s)) + ownEdges d x
                 + sum_list (map (\<lambda>n. ownEdges d (n_id n)) L))"
  and cloneChildren_edge_count:
  "cloneChildren uuid now k cs newId s = Some s' \<Longrightarrow> cloneInv uuid i d s \<Longrightarrow>
     set cs \<subseteq> set (nodes d) \<Longrightarrow> newId \<in> uuid ` {i..} \<Longrightarrow>
     (\<forall>n \<in> set (nodes d). n_id n \<noteq> [] \<and> n_id n \<notin> uuid ` {i..}) \<Longrightarrow>
     cloneInv uuid i d s'
     \<and> (\<exists>L. descendantRowsOf k d cs = Some L
            \<and> length (edges (cs_db s')) = length (edges (cs_db s))
                 + sum_list (map (\<lambda>n. ownEdges d (n_id n)) L))"
proof (induction uuid now k x p s and uuid now k cs newId s arbitrary: s' and s'
    rule: cloneRecursive_cloneChildren.induct)
  case (1 uuid now nodeId newParentId s)
  then show ?case by simp
next
  case (2 uuid now k nodeId newParentId s)
  note inv = "2.prems"(2) and xin = "2.prems"(3) and p = "2.prems"(4) and ok = "2.prems"(5)
  have x: "nodeId \<noteq> []" "nodeId \<notin> uuid ` {i..}" using xin ok by auto
  from inv obtain nn where n: "nodes (cs_db s) = nodes d @ nn" by (auto elim: cloneInvE)
  have "find (\<lambda>n. n_id n = nodeId) (nodes (cs_db s)) \<noteq> None"
    using xin by (auto simp add: n find_None_iff)
  then obtain node where found: "find (\<lambda>n. n_id n = nodeId) (nodes (cs_db s)) = Some node" by auto
  let ?newId = "uuid (cs_next s)"
  let ?s1 = "addClone uuid now nodeId newParentId node s"
  from cloneRecursive_found [OF "2.prems"(1) found] obtain s2 where
    s2: "cloneChildren uuid now k (filter (\<lambda>n. n_parentId n = nodeId) (nodes (cs_db ?s1))) ?newId ?s1 = Some s2"
    and s': "s' = cloneVictoryConditions uuid nodeId ?newId (cloneEdges uuid nodeId ?newId s2)"
    by blast
  have inv1: "cloneInv uuid i d ?s1" using inv p by (rule cloneInv_addClone)
  have ch: "filter (\<lambda>n. n_parentId n = nodeId) (nodes (cs_db ?s1)) = filter (\<lambda>n. n_parentId n = nodeId) (nodes d)"
    using cloneInv_children(1) [OF inv1 x] .
  have le: "i \<le> cs_next s" using inv by (auto elim: cloneInvE)
  then have newId: "?newId \<in> uuid ` {i..}" by auto
  have sub: "set (filter (\<lambda>n. n_parentId n = nodeId) (nodes (cs_db ?s1))) \<subseteq> set (nodes d)"
    unfolding ch by auto
  from "2.IH" [OF found refl refl s2 inv1 sub newId ok]
  have inv2: "cloneInv uuid i d s2"
    and cnt: "\<exists>L. descendantRowsOf k d (filter (\<lambda>n. n_parentId n = nodeId) (nodes (cs_db ?s1))) = Some L
            \<and> length (edges (cs_db s2)) = length (edges (cs_db ?s1))
                 + sum_list (map (\<lambda>n. ownEdges d (n_id n)) L)"
    by blast+
  from cnt obtain L where L: "descendantRowsOf k d (filter (\<lambda>n. n_parentId n = nodeId) (nodes d)) = Some L"
    and len2: "length (edges (cs_db s2)) = length (edges (cs_db ?s1)) + sum_list (map (\<lambda>n. ownEdges d (n_id n)) L)"
    unfolding ch by blast
  have e1: "edges (cs_db ?s1) = edges (cs_db s)" by (simp add: addClone_def)
  have lev: "levelEdges nodeId s2 = filter (\<lambda>e. e_parentId e = nodeId) (edges d)"
    using cloneInv_children(2) [OF inv2 x] .
  have len': "length (edges (cs_db s')) = length (edges (cs_db s2)) + ownEdges d nodeId"
    unfolding s' cloneVictoryConditions_edges cloneEdges_effect
    by (simp add: lev ownEdges_def)
  have inv': "cloneInv uuid i d s'"
    unfolding s' using cloneInv_cloneEdges [OF inv2 newId] by (rule cloneInv_cloneVictoryConditions)
  have "descendantRows (Suc k) d nodeId = Some L" using L by simp
  moreover have "length (edges (cs_db s')) = length (edges (cs_db s)) + ownEdges d nodeId
                 + sum_list (map (\<lambda>n. ownEdges d (n_id n)) L)"
    using len' len2 e1 by simp
  ultimately show ?case using inv' by blast
next
  case (3 uuid now k newId s)
  then show ?case by simp
next
  case (4 uuid now k child cs newId s)
  note inv = "4.prems"(2) and sub = "4.prems"(3) and newId = "4.prems"(4) and ok = "4.prems"(5)
  from "4.prems"(1) obtain s1 where
    s1: "cloneRecursive uuid now k (n_id child) newId s = Some s1"
    and r: "cloneChildren uuid now k cs newId s1 = Some s'"
    by (auto split: option.splits)
  have cin: "n_id child \<in> n_id ` set (nodes d)" using sub by auto
  have p: "newId \<in> insert [] (uuid ` {i..})" using newId by simp
  from "4.IH"(1) [OF s1 inv cin p ok]
  have inv1: "cloneInv uuid i d s1"
    and c1: "\<exists>L. descendantRows k d (n_id child) = Some L
            \<and> length (edges (cs_db s1)) = length (edges (cs_db s)) + ownEdges d (n_id child)
                 + sum_list (map (\<lambda>n. ownEdges d (n_id n)) L)"
    by blast+
  have sub': "set cs \<subseteq> set (nodes d)" using sub by simp
  from "4.IH"(2) [OF s1 r inv1 sub' newId ok]
  have inv': "cloneInv uuid i d s'"
    and c2: "\<exists>L. descendantRowsOf k d cs = Some L
            \<and> length (edges (cs_db s')) = length (edges (cs_db s1))
                 + sum_list (map (\<lambda>n. ownEdges d (n_id n)) L)"
    by blast+
  from c1 obtain below where b: "descendantRows k d (n_id child) = Some below"
    and lb: "length (edges (cs_db s1)) = length (edges (cs_db s)) + ownEdges d (n_id child)
                 + sum_list (map (\<lambda>n. ownEdges d (n_id n)) below)" by blast
  from c2 obtain rest where rs: "descendantRowsOf k d cs = Some rest"
    and lr: "length (edges (cs_db s')) = length (edges (cs_db s1))
                 + sum_list (map (\<lambda>n. ownEdges d (n_id n)) rest)" by blast
  have "descendantRowsOf k d (child # cs) = Some (child # below @ rest)" using b rs by simp
  moreover have "length (edges (cs_db s')) = length (edges (cs_db s))
                 + sum_list (map (\<lambda>n. ownEdges d (n_id n)) (child # below @ rest))"
    using lb lr by simp
  ultimately show ?case using inv' by blast
qed

lemma subtree_edge_count:
  assumes L: "descendantRows k d x = Some L" and dist: "distinct (map n_id (nodes d))"
  shows "ownEdges d x + sum_list (map (\<lambda>n. ownEdges d (n_id n)) L)
         = length (filter (\<lambda>e. e_parentId e \<in> subtreeIds d x) (edges d))"
proof -
  have Ld: "distinct (map n_id L)" and xL: "x \<notin> n_id ` set L"
    using descendantRows_distinct [OF L dist] by blast+
  have dids: "distinct (x # map n_id L)" using Ld xL by auto
  have sids: "subtreeIds d x = set (x # map n_id L)"
    using subtreeIds_descendantRows [OF L] by simp
  show ?thesis
    unfolding sids using length_filter_keys [OF dids, of e_parentId "edges d"]
    by (simp add: ownEdges_def comp_def)
qed

lemma duplicateMachine_edge_count:
  assumes run: "duplicateMachine uuid now k machine (d, i) = Some (d', i')"
    and m: "machine \<in> set (nodes d)"
    and dist: "distinct (map n_id (nodes d))"
    and ok: "\<forall>n \<in> set (nodes d). n_id n \<noteq> [] \<and> n_id n \<notin> uuid ` {i..}"
  shows "length (edges d') = length (edges d)
           + length (filter (\<lambda>e. e_parentId e \<in> subtreeIds d (n_id machine)) (edges d))"
proof -
  let ?s0 = "\<lparr>cs_db = d, cs_idMap = Map.empty, cs_next = i\<rparr>"
  from run obtain s' where s': "cloneRecursive uuid now k (n_id machine) [] ?s0 = Some s'"
    and d': "d' = cs_db s'"
    by (auto simp add: duplicateMachine_def)
  have inv0: "cloneInv uuid i d ?s0"
    by (rule cloneInvI [where nn = "[]" and ne = "[]"]) simp_all
  have xin: "n_id machine \<in> n_id ` set (nodes d)" using m by simp
  from cloneRecursive_edge_count [OF s' inv0 xin _ ok]
  obtain L where L: "descendantRows k d (n_id machine) = Some L"
    and len: "length (edges (cs_db s')) = length (edges (cs_db ?s0)) + ownEdges d (n_id machine)
                 + sum_list (map (\<lambda>n. ownEdges d (n_id n)) L)"
    by auto
  show ?thesis
    using len subtree_edge_count [OF L dist] by (simp add: d')
qed

text \<open>
  C2 (as amended). At every cloned scope level, that is for every call of cloneRecursive on
  a node that exists and whose children have been cloned, each edge owned at the level
  (parentId the node) is inserted again, once, under a fresh id and with parentId the
  node's fresh id, whether or not its endpoints are in the translation map: an endpoint
  that has a (non-empty) translation in the map as it stands then is rewritten to it, an
  endpoint that has none is kept as it is. In particular every edge the level owned
  before the call has its clone among the added rows: no edge of a cloned level is dropped.
  Over a whole duplication that returns, in a store whose node ids are distinct, not empty
  and not among the uuids of the run, the edges added are as many as the edges owned
  inside the subtree of the machine (parentId the machine or a descendant of it), wherever
  their endpoints are.
\<close>

theorem cloneRecursive_clones_every_edge:
  "(cloneRecursive uuid now (Suc k) nodeId newParentId s = Some s'
    \<and> find (\<lambda>n. n_id n = nodeId) (nodes (cs_db s)) = Some node \<longrightarrow>
     (\<exists>s2. cloneChildren uuid now k
            (filter (\<lambda>n. n_parentId n = nodeId) (nodes (cs_db (addClone uuid now nodeId newParentId node s))))
            (uuid (cs_next s)) (addClone uuid now nodeId newParentId node s) = Some s2
        \<and> edges (cs_db s')
            = edges (cs_db s2) @
              map2 (\<lambda>e j. cloneEdge (cs_idMap s2) (uuid (cs_next s)) (uuid j) e)
                (levelEdges nodeId s2) [cs_next s2..<cs_next s2 + length (levelEdges nodeId s2)]
        \<and> (\<forall>e. e \<in> set (levelEdges nodeId s) \<longrightarrow>
              (\<exists>j. cloneEdge (cs_idMap s2) (uuid (cs_next s)) (uuid j) e
                     \<in> set (drop (length (edges (cs_db s2))) (edges (cs_db s')))))
        \<and> (\<forall>x. cs_idMap s2 x = None \<longrightarrow> translateId (cs_idMap s2) x = x)
        \<and> (\<forall>x y. cs_idMap s2 x = Some y \<and> y \<noteq> [] \<longrightarrow> translateId (cs_idMap s2) x = y)))
   \<and> (duplicateMachine uuid now fuel machine (d, i) = Some (d', i')
      \<and> machine \<in> set (nodes d)
      \<and> distinct (map n_id (nodes d))
      \<and> n_id ` set (nodes d) \<inter> insert [] (uuid ` {i..}) = {} \<longrightarrow>
        length (edges d') = length (edges d)
           + length (filter (\<lambda>e. e_parentId e \<in> subtreeIds d (n_id machine)) (edges d)))"
proof (intro conjI impI)
  assume "cloneRecursive uuid now (Suc k) nodeId newParentId s = Some s'
    \<and> find (\<lambda>n. n_id n = nodeId) (nodes (cs_db s)) = Some node"
  then show "\<exists>s2. cloneChildren uuid now k
            (filter (\<lambda>n. n_parentId n = nodeId) (nodes (cs_db (addClone uuid now nodeId newParentId node s))))
            (uuid (cs_next s)) (addClone uuid now nodeId newParentId node s) = Some s2
        \<and> edges (cs_db s')
            = edges (cs_db s2) @
              map2 (\<lambda>e j. cloneEdge (cs_idMap s2) (uuid (cs_next s)) (uuid j) e)
                (levelEdges nodeId s2) [cs_next s2..<cs_next s2 + length (levelEdges nodeId s2)]
        \<and> (\<forall>e. e \<in> set (levelEdges nodeId s) \<longrightarrow>
              (\<exists>j. cloneEdge (cs_idMap s2) (uuid (cs_next s)) (uuid j) e
                     \<in> set (drop (length (edges (cs_db s2))) (edges (cs_db s')))))
        \<and> (\<forall>x. cs_idMap s2 x = None \<longrightarrow> translateId (cs_idMap s2) x = x)
        \<and> (\<forall>x y. cs_idMap s2 x = Some y \<and> y \<noteq> [] \<longrightarrow> translateId (cs_idMap s2) x = y)"
    by (rule cloneRecursive_level_edges [rule_format])
next
  assume a: "duplicateMachine uuid now fuel machine (d, i) = Some (d', i')
      \<and> machine \<in> set (nodes d)
      \<and> distinct (map n_id (nodes d))
      \<and> n_id ` set (nodes d) \<inter> insert [] (uuid ` {i..}) = {}"
  then have ok: "\<forall>n \<in> set (nodes d). n_id n \<noteq> [] \<and> n_id n \<notin> uuid ` {i..}"
    by blast
  from a have run: "duplicateMachine uuid now fuel machine (d, i) = Some (d', i')"
    and m: "machine \<in> set (nodes d)" and dist: "distinct (map n_id (nodes d))"
    by simp_all
  from run m dist ok
  show "length (edges d') = length (edges d)
           + length (filter (\<lambda>e. e_parentId e \<in> subtreeIds d (n_id machine)) (edges d))"
    by (rule duplicateMachine_edge_count)
qed

lemma externalEdge_clone_state:
  "map_option (\<lambda>s. (map (\<lambda>e. (e_id e, e_parentId e, e_source e, e_target e)) (edges (cs_db s)),
                     cs_idMap s ''N'', cs_idMap s ''A'', cs_idMap s ''X''))
     (cloneRecursive unaryUuid 9 3 ''N'' [] \<lparr>cs_db = externalEdgeDb, cs_idMap = Map.empty, cs_next = 0\<rparr>)
   = Some ([(''e1'', ''N'', ''A'', ''X''), (''u++'', ''u'', ''u+'', ''X'')], Some ''u'', Some ''u+'', None)"
  by (simp add: externalEdgeDb_def emptyDb_def mkNode_def addClone_def
      cloneNode_def cloneEdges_def cloneVictoryConditions_def cloneEdge_def translateId_def orElse_def
      unaryUuid_def Let_def eval_nat_numeral)

lemma externalEdge_duplicate:
  "map_option (\<lambda>st. map (\<lambda>e. (e_parentId e, e_source e, e_target e)) (edges (fst st)))
       (duplicateMachine unaryUuid 9 3 (mkNode ''N'' [] Machine ''running'' 0) (externalEdgeDb, 0))
     = Some [(''N'', ''A'', ''X''), (''u'', ''u+'', ''X'')]"
  by (simp add: duplicateMachine_def externalEdgeDb_def emptyDb_def mkNode_def addClone_def
      cloneNode_def cloneEdges_def cloneVictoryConditions_def cloneEdge_def translateId_def orElse_def
      unaryUuid_def Let_def eval_nat_numeral)

theorem cloneRecursive_clones_every_edge_witness:
  "find (\<lambda>n. n_id n = ''N'') (nodes externalEdgeDb) = Some (mkNode ''N'' [] Machine ''running'' 0)
   \<and> (\<exists>s' s2. cloneRecursive unaryUuid 9 3 ''N'' [] \<lparr>cs_db = externalEdgeDb, cs_idMap = Map.empty, cs_next = 0\<rparr> = Some s'
        \<and> map (\<lambda>e. (e_id e, e_parentId e, e_source e, e_target e)) (edges (cs_db s'))
          = [(''e1'', ''N'', ''A'', ''X''), (''u++'', ''u'', ''u+'', ''X'')]
        \<and> edges (cs_db s')
            = edges (cs_db s2) @
              map2 (\<lambda>e j. cloneEdge (cs_idMap s2) ''u'' (unaryUuid j) e)
                (levelEdges ''N'' s2) [cs_next s2..<cs_next s2 + length (levelEdges ''N'' s2)])
   \<and> mkNode ''N'' [] Machine ''running'' 0 \<in> set (nodes externalEdgeDb)
   \<and> distinct (map n_id (nodes externalEdgeDb))
   \<and> n_id ` set (nodes externalEdgeDb) \<inter> insert [] (unaryUuid ` {0..}) = {}
   \<and> (\<exists>d' i'. duplicateMachine unaryUuid 9 3 (mkNode ''N'' [] Machine ''running'' 0) (externalEdgeDb, 0) = Some (d', i')
        \<and> map (\<lambda>e. (e_parentId e, e_source e, e_target e)) (edges d')
          = [(''N'', ''A'', ''X''), (''u'', ''u+'', ''X'')]
        \<and> length (edges d') = length (edges externalEdgeDb)
             + length (filter (\<lambda>e. e_parentId e \<in> subtreeIds externalEdgeDb ''N'') (edges externalEdgeDb)))"
proof -
  let ?s0 = "\<lparr>cs_db = externalEdgeDb, cs_idMap = Map.empty, cs_next = 0\<rparr>"
  let ?N = "mkNode ''N'' [] Machine ''running'' 0"
  have f: "find (\<lambda>n. n_id n = ''N'') (nodes (cs_db ?s0)) = Some ?N"
    by (simp add: externalEdgeDb_def emptyDb_def mkNode_def)
  from externalEdge_clone_state obtain s' where
    run: "cloneRecursive unaryUuid 9 (Suc 2) ''N'' [] ?s0 = Some s'"
    and es: "map (\<lambda>e. (e_id e, e_parentId e, e_source e, e_target e)) (edges (cs_db s'))
          = [(''e1'', ''N'', ''A'', ''X''), (''u++'', ''u'', ''u+'', ''X'')]"
    by (auto simp add: eval_nat_numeral)
  from externalEdge_duplicate obtain d' i' where
    dup: "duplicateMachine unaryUuid 9 3 ?N (externalEdgeDb, 0) = Some (d', i')"
    and des: "map (\<lambda>e. (e_parentId e, e_source e, e_target e)) (edges d')
          = [(''N'', ''A'', ''X''), (''u'', ''u+'', ''X'')]"
    by auto
  have m: "?N \<in> set (nodes externalEdgeDb)"
    by (simp add: externalEdgeDb_def emptyDb_def)
  have dist: "distinct (map n_id (nodes externalEdgeDb))"
    by (simp add: externalEdgeDb_def emptyDb_def mkNode_def)
  have ok: "n_id ` set (nodes externalEdgeDb) \<inter> insert [] (unaryUuid ` {0..}) = {}"
    by (auto simp add: externalEdgeDb_def emptyDb_def mkNode_def unaryUuid_def)
  note T = cloneRecursive_clones_every_edge [of unaryUuid 9 2 "''N''" "[]" ?s0 s' ?N
      3 ?N externalEdgeDb 0 d' i']
  from T [THEN conjunct1, rule_format, OF conjI [OF run f]]
  obtain s2 where "edges (cs_db s')
            = edges (cs_db s2) @
              map2 (\<lambda>e j. cloneEdge (cs_idMap s2) (unaryUuid 0) (unaryUuid j) e)
                (levelEdges ''N'' s2) [cs_next s2..<cs_next s2 + length (levelEdges ''N'' s2)]"
    by (elim exE conjE) simp
  then have lev: "edges (cs_db s')
            = edges (cs_db s2) @
              map2 (\<lambda>e j. cloneEdge (cs_idMap s2) ''u'' (unaryUuid j) e)
                (levelEdges ''N'' s2) [cs_next s2..<cs_next s2 + length (levelEdges ''N'' s2)]"
    by (simp add: unaryUuid_def)
  have "length (edges d') = length (edges externalEdgeDb)
             + length (filter (\<lambda>e. e_parentId e \<in> subtreeIds externalEdgeDb (n_id ?N)) (edges externalEdgeDb))"
    by (rule T [THEN conjunct2, rule_format]) (intro conjI dup m dist ok)
  then have cnt: "length (edges d') = length (edges externalEdgeDb)
             + length (filter (\<lambda>e. e_parentId e \<in> subtreeIds externalEdgeDb ''N'') (edges externalEdgeDb))"
    by (simp add: mkNode_def)
  have level: "\<exists>s' s2. cloneRecursive unaryUuid 9 3 ''N'' [] ?s0 = Some s'
        \<and> map (\<lambda>e. (e_id e, e_parentId e, e_source e, e_target e)) (edges (cs_db s'))
          = [(''e1'', ''N'', ''A'', ''X''), (''u++'', ''u'', ''u+'', ''X'')]
        \<and> edges (cs_db s')
            = edges (cs_db s2) @
              map2 (\<lambda>e j. cloneEdge (cs_idMap s2) ''u'' (unaryUuid j) e)
                (levelEdges ''N'' s2) [cs_next s2..<cs_next s2 + length (levelEdges ''N'' s2)]"
    using run es lev by (intro exI [of _ s'] exI [of _ s2]) (simp add: eval_nat_numeral)
  have whole: "\<exists>d' i'. duplicateMachine unaryUuid 9 3 ?N (externalEdgeDb, 0) = Some (d', i')
        \<and> map (\<lambda>e. (e_parentId e, e_source e, e_target e)) (edges d')
          = [(''N'', ''A'', ''X''), (''u'', ''u+'', ''X'')]
        \<and> length (edges d') = length (edges externalEdgeDb)
             + length (filter (\<lambda>e. e_parentId e \<in> subtreeIds externalEdgeDb ''N'') (edges externalEdgeDb))"
    using dup des cnt by (intro exI [of _ d'] exI [of _ i']) simp
  from f have f': "find (\<lambda>n. n_id n = ''N'') (nodes externalEdgeDb) = Some ?N" by simp
  show ?thesis using f' level m dist ok whole by (intro conjI)
qed

text \<open>
  The claim as stated fails on the machine N whose level holds an edge from its child A to
  X, a machine outside the subtree: X is not in the translation map, and the edge is cloned
  all the same, its source rewritten to the clone of A and its target still X.
\<close>

theorem cloneRecursive_external_edge_counterexample:
  "map_option (\<lambda>s. (map (\<lambda>e. (e_id e, e_parentId e, e_source e, e_target e)) (edges (cs_db s)),
                     cs_idMap s ''N'', cs_idMap s ''A'', cs_idMap s ''X''))
     (cloneRecursive unaryUuid 9 3 ''N'' [] \<lparr>cs_db = externalEdgeDb, cs_idMap = Map.empty, cs_next = 0\<rparr>)
   = Some ([(''e1'', ''N'', ''A'', ''X''), (''u++'', ''u'', ''u+'', ''X'')], Some ''u'', Some ''u+'', None)
   \<and> map_option (\<lambda>st. map (\<lambda>e. (e_parentId e, e_source e, e_target e)) (edges (fst st)))
       (duplicateMachine unaryUuid 9 3 (mkNode ''N'' [] Machine ''running'' 0) (externalEdgeDb, 0))
     = Some [(''N'', ''A'', ''X''), (''u'', ''u+'', ''X'')]"
  by (simp add: duplicateMachine_def externalEdgeDb_def emptyDb_def mkNode_def addClone_def
      cloneNode_def cloneEdges_def cloneVictoryConditions_def cloneEdge_def translateId_def orElse_def
      unaryUuid_def Let_def eval_nat_numeral)

subsection \<open>The rows of the store after a duplication\<close>

lemma storeIds_mono_fresh:
  "(\<forall>j. i \<le> j \<longrightarrow> uuid j \<notin> storeIds d) \<Longrightarrow> A \<subseteq> uuid ` {i..<i'} \<Longrightarrow> A \<inter> storeIds d = {}"
  by auto

text \<open>
  C10. Whenever duplicateMachine returns, on a store none of whose ids the uuid supply
  produces from the current index on, it has only inserted rows: the node, edge and
  victory-condition tables are the old tables followed by new rows, every id of a new
  node, embedded step, edge or victory condition is a uuid drawn during the run and
  differs from every id of the old store, and the problem, status-change, event and
  capture tables are unchanged. So no row of the original subtree is updated or deleted.
\<close>

theorem duplicateMachine_only_inserts:
  "duplicateMachine uuid now k machine (d, i) = Some (d', i') \<and> (\<forall>j. i \<le> j \<longrightarrow> uuid j \<notin> storeIds d) \<longrightarrow>
     (\<exists>nn ne nv.
        nodes d' = nodes d @ nn \<and> edges d' = edges d @ ne
        \<and> victoryConditions d' = victoryConditions d @ nv
        \<and> n_id ` set nn \<union> st_id ` (\<Union>n \<in> set nn. set (n_steps n)) \<union> e_id ` set ne \<union> vc_id ` set nv
            \<subseteq> uuid ` {i..<i'}
        \<and> (n_id ` set nn \<union> st_id ` (\<Union>n \<in> set nn. set (n_steps n)) \<union> e_id ` set ne \<union> vc_id ` set nv)
            \<inter> storeIds d = {})
     \<and> problems d' = problems d \<and> statusChanges d' = statusChanges d
     \<and> events d' = events d \<and> captures d' = captures d"
proof (intro impI, elim conjE)
  assume run: "duplicateMachine uuid now k machine (d, i) = Some (d', i')"
    and fresh: "\<forall>j. i \<le> j \<longrightarrow> uuid j \<notin> storeIds d"
  let ?s0 = "\<lparr>cs_db = d, cs_idMap = Map.empty, cs_next = i\<rparr>"
  from run obtain s' where s': "cloneRecursive uuid now k (n_id machine) [] ?s0 = Some s'"
    and d': "d' = cs_db s'" and i': "i' = cs_next s'"
    by (auto simp add: duplicateMachine_def)
  have oa: "onlyAdds uuid ?s0 s'" using cloneRecursive_onlyAdds [OF s'] .
  then have x: "\<exists>nn ne nv.
           nodes d' = nodes d @ nn
           \<and> edges d' = edges d @ ne
           \<and> victoryConditions d' = victoryConditions d @ nv
           \<and> n_id ` set nn \<subseteq> uuid ` {i..<i'}
           \<and> st_id ` (\<Union>n \<in> set nn. set (n_steps n)) \<subseteq> uuid ` {i..<i'}
           \<and> e_id ` set ne \<subseteq> uuid ` {i..<i'}
           \<and> vc_id ` set nv \<subseteq> uuid ` {i..<i'}"
    and r: "problems d' = problems d" "statusChanges d' = statusChanges d"
      "captures d' = captures d" "events d' = events d"
    by (simp_all add: onlyAdds_def d' i')
  from x obtain nn ne nv where n:
    "nodes d' = nodes d @ nn" "edges d' = edges d @ ne" "victoryConditions d' = victoryConditions d @ nv"
    and ids: "n_id ` set nn \<subseteq> uuid ` {i..<i'}"
      "st_id ` (\<Union>n \<in> set nn. set (n_steps n)) \<subseteq> uuid ` {i..<i'}"
      "e_id ` set ne \<subseteq> uuid ` {i..<i'}"
      "vc_id ` set nv \<subseteq> uuid ` {i..<i'}"
    by (elim exE conjE)
  have sub: "n_id ` set nn \<union> st_id ` (\<Union>n \<in> set nn. set (n_steps n)) \<union> e_id ` set ne \<union> vc_id ` set nv
            \<subseteq> uuid ` {i..<i'}"
    using ids by simp
  have disj: "(n_id ` set nn \<union> st_id ` (\<Union>n \<in> set nn. set (n_steps n)) \<union> e_id ` set ne \<union> vc_id ` set nv)
            \<inter> storeIds d = {}"
    using fresh sub by (rule storeIds_mono_fresh)
  show "(\<exists>nn ne nv.
        nodes d' = nodes d @ nn \<and> edges d' = edges d @ ne
        \<and> victoryConditions d' = victoryConditions d @ nv
        \<and> n_id ` set nn \<union> st_id ` (\<Union>n \<in> set nn. set (n_steps n)) \<union> e_id ` set ne \<union> vc_id ` set nv
            \<subseteq> uuid ` {i..<i'}
        \<and> (n_id ` set nn \<union> st_id ` (\<Union>n \<in> set nn. set (n_steps n)) \<union> e_id ` set ne \<union> vc_id ` set nv)
            \<inter> storeIds d = {})
     \<and> problems d' = problems d \<and> statusChanges d' = statusChanges d
     \<and> events d' = events d \<and> captures d' = captures d"
    using n sub disj r by blast
qed

lemma unaryUuid_fresh: "unaryUuid j \<notin> storeIds machineWithSopDb"
  by (simp add: storeIds_def machineWithSopDb_def rootM_def procedureP_def emptyDb_def mkNode_def
      unaryUuid_def)

lemma duplicate_machineWithSop:
  "map_option (\<lambda>st. (map (\<lambda>n. (n_id n, n_parentId n, n_label n, map (\<lambda>s. (st_id s, st_done s)) (n_steps n))) (nodes (fst st)),
          map (\<lambda>e. (e_id e, e_parentId e, e_source e, e_target e)) (edges (fst st)), snd st))
        (duplicateMachine unaryUuid 9 3 rootM (machineWithSopDb, 0))
   = Some ([(''M'', [], ''M'', []),
            (''P'', ''M'', ''P'', [(''s1'', True), (''s2'', False)]),
            (''u'', [], ''M (Copy)'', []),
            (''u+'', ''u'', ''P'', [(''u++'', False), (''u+++'', False)])],
           [(''e1'', ''M'', ''M'', ''P''), (''u++++'', ''u'', ''u'', ''u+'')], 5)"
  by (simp add: duplicateMachine_def machineWithSopDb_def rootM_def procedureP_def emptyDb_def mkNode_def
      addClone_def cloneNode_def cloneEdges_def cloneVictoryConditions_def cloneEdge_def translateId_def
      orElse_def unaryUuid_def Let_def eval_nat_numeral)

theorem duplicateMachine_only_inserts_witness:
  "\<exists>d'. duplicateMachine unaryUuid 9 3 rootM (machineWithSopDb, 0) = Some (d', 5)
      \<and> take 2 (nodes d') = nodes machineWithSopDb
      \<and> map n_id (drop 2 (nodes d')) = [''u'', ''u+'']
      \<and> take 1 (edges d') = edges machineWithSopDb
      \<and> problems d' = problems machineWithSopDb \<and> events d' = events machineWithSopDb"
proof -
  from duplicate_machineWithSop obtain d' where
    run: "duplicateMachine unaryUuid 9 3 rootM (machineWithSopDb, 0) = Some (d', 5)"
    and ids: "map n_id (nodes d') = [''M'', ''P'', ''u'', ''u+'']"
    by (auto simp add: comp_def)
  have fresh: "\<forall>j. 0 \<le> j \<longrightarrow> unaryUuid j \<notin> storeIds machineWithSopDb"
    using unaryUuid_fresh by simp
  note T = duplicateMachine_only_inserts [of unaryUuid 9 3 rootM machineWithSopDb 0 d' 5,
      rule_format, OF conjI [OF run fresh]]
  from T obtain nn ne where n: "nodes d' = nodes machineWithSopDb @ nn" and e: "edges d' = edges machineWithSopDb @ ne"
    and r: "problems d' = problems machineWithSopDb" "events d' = events machineWithSopDb"
    by (elim conjE exE)
  have l: "length (nodes machineWithSopDb) = 2" "length (edges machineWithSopDb) = 1"
    by (simp_all add: machineWithSopDb_def emptyDb_def)
  have "take 2 (nodes d') = nodes machineWithSopDb" using n l by simp
  moreover have "take 1 (edges d') = edges machineWithSopDb" using e l by simp
  moreover have "map n_id (drop 2 (nodes d')) = [''u'', ''u+'']"
    using ids by (simp add: drop_map [symmetric])
  ultimately show ?thesis using run r by (intro exI [of _ d']) simp
qed


section \<open>Claims about status transitions\<close>

lemma trackNoteUpdate_statusChanges [simp]:
  "statusChanges (b_db (trackNoteUpdate uuid now ident updates b)) = statusChanges (b_db b)"
  by (simp add: trackNoteUpdate_def)

lemma trackNoteUpdate_statusEvents [simp]:
  "filter (\<lambda>ev. ev_eventType ev = StatusChangeEv) (events (b_db (trackNoteUpdate uuid now ident updates b)))
   = filter (\<lambda>ev. ev_eventType ev = StatusChangeEv) (events (b_db b))"
  by (simp add: trackNoteUpdate_def)

lemma trackNoteUpdate_rest [simp]:
  "nodes (b_db (trackNoteUpdate uuid now ident updates b)) = nodes (b_db b)"
  "statuses (b_db (trackNoteUpdate uuid now ident updates b)) = statuses (b_db b)"
  by (simp_all add: trackNoteUpdate_def)

lemma trackStatusChange_rest [simp]:
  "nodes (b_db (trackStatusChange uuid now ident updates b)) = nodes (b_db b)"
  "statuses (b_db (trackStatusChange uuid now ident updates b)) = statuses (b_db b)"
  by (simp_all add: trackStatusChange_def split: option.splits)

lemma nodesUpdate_logs:
  assumes "nodesUpdate ident row d = Some d'"
  shows "statusChanges d' = statusChanges d" and "events d' = events d"
    and "nodes d' = map (\<lambda>n. if n_id n = ident then applyPatch row n else n) (nodes d)"
  using assms by (auto simp add: nodesUpdate_def split: if_splits)

text \<open>The update is rejected exactly when it gives a row a status that statuses does not list.\<close>

lemma nodesUpdate_None:
  "nodesUpdate ident row d = None
   \<longleftrightarrow> ident \<in> n_id ` set (nodes d)
       \<and> (\<exists>s. u_statusId row = Some s \<and> s \<notin> sg_id ` set (statuses d))"
  by (auto simp add: nodesUpdate_def split: option.splits)

lemma handleUpdateNode_returns:
  assumes "u_statusId updates = None \<or> (\<exists>s. u_statusId updates = Some s \<and> s \<in> sg_id ` set (statuses (b_db b)))"
  shows "\<exists>b'. handleUpdateNode uuid now ident updates b = Inr b'"
proof -
  let ?b2 = "trackNoteUpdate uuid now ident updates (trackStatusChange uuid now ident updates b)"
  have "nodesUpdate ident (updates\<lparr>u_updatedAt := Some now\<rparr>) (b_db ?b2) \<noteq> None"
    using assms by (auto simp add: nodesUpdate_None)
  then show ?thesis
    by (auto simp add: handleUpdateNode_def Let_def)
qed

lemma handleUpdateNode_rejects:
  assumes "ident \<in> n_id ` set (nodes (b_db b))"
    and "u_statusId updates = Some s" and "s \<notin> sg_id ` set (statuses (b_db b))"
  shows "handleUpdateNode uuid now ident updates b
         = Inl (ForeignKeyViolation
                  (trackNoteUpdate uuid now ident updates (trackStatusChange uuid now ident updates b)))"
proof -
  let ?b2 = "trackNoteUpdate uuid now ident updates (trackStatusChange uuid now ident updates b)"
  have "nodesUpdate ident (updates\<lparr>u_updatedAt := Some now\<rparr>) (b_db ?b2) = None"
    unfolding nodesUpdate_None using assms by simp
  then show ?thesis
    by (simp add: handleUpdateNode_def Let_def)
qed

lemma handleUpdateNode_Inr:
  assumes "handleUpdateNode uuid now ident updates b = Inr b'"
  shows "statusChanges (b_db b') = statusChanges (b_db (trackStatusChange uuid now ident updates b))"
    and "filter (\<lambda>ev. ev_eventType ev = StatusChangeEv) (events (b_db b'))
         = filter (\<lambda>ev. ev_eventType ev = StatusChangeEv)
             (events (b_db (trackStatusChange uuid now ident updates b)))"
    and "nodes (b_db b')
         = map (\<lambda>n. if n_id n = ident then applyPatch (updates\<lparr>u_updatedAt := Some now\<rparr>) n else n)
             (nodes (b_db b))"
proof -
  let ?b2 = "trackNoteUpdate uuid now ident updates (trackStatusChange uuid now ident updates b)"
  from assms obtain d where d: "nodesUpdate ident (updates\<lparr>u_updatedAt := Some now\<rparr>) (b_db ?b2) = Some d"
    and b': "b' = ?b2\<lparr>b_db := d,
                 b_dbNodes := map (\<lambda>n. if n_id n = ident then applyPatch updates n else n) (b_dbNodes ?b2)\<rparr>"
    by (auto simp add: handleUpdateNode_def Let_def split: option.splits)
  show "statusChanges (b_db b') = statusChanges (b_db (trackStatusChange uuid now ident updates b))"
    using nodesUpdate_logs(1) [OF d] by (simp add: b')
  show "filter (\<lambda>ev. ev_eventType ev = StatusChangeEv) (events (b_db b'))
         = filter (\<lambda>ev. ev_eventType ev = StatusChangeEv)
             (events (b_db (trackStatusChange uuid now ident updates b)))"
    using nodesUpdate_logs(2) [OF d] by (simp add: b')
  show "nodes (b_db b')
         = map (\<lambda>n. if n_id n = ident then applyPatch (updates\<lparr>u_updatedAt := Some now\<rparr>) n else n)
             (nodes (b_db b))"
    using nodesUpdate_logs(3) [OF d] by (simp add: b')
qed

text \<open>
  When the node is among the loaded nodes and its status there differs from the new one,
  a status the statuses table lists, the handler returns and has appended one StatusChange
  row, with the from- and the to-status, and one status-change event.
\<close>

lemma handleUpdateNode_logs_loaded_node:
  assumes s: "u_statusId updates = Some s" "s \<noteq> []" "s \<in> sg_id ` set (statuses (b_db b))"
    and cur: "find (\<lambda>n. n_id n = ident) (b_dbNodes b) = Some cur" "n_statusId cur \<noteq> s"
  shows "\<exists>b'. handleUpdateNode uuid now ident updates b = Inr b'
      \<and> statusChanges (b_db b')
        = statusChanges (b_db b) @
            [\<lparr>sc_id = uuid (b_next b), sc_machineNodeId = ident, sc_fromStatusId = n_statusId cur,
              sc_toStatusId = s, sc_changedAt = now\<rparr>]
      \<and> filter (\<lambda>ev. ev_eventType ev = StatusChangeEv) (events (b_db b'))
        = filter (\<lambda>ev. ev_eventType ev = StatusChangeEv) (events (b_db b)) @
            [\<lparr>ev_id = uuid (Suc (b_next b)), ev_nodeId = ident, ev_eventType = StatusChangeEv,
              ev_timestamp = now, ev_previousValue = Some (n_statusId cur), ev_newValue = Some s,
              ev_metadata = None\<rparr>]"
proof -
  from handleUpdateNode_returns [of updates b uuid now ident] s
  obtain b' where r: "handleUpdateNode uuid now ident updates b = Inr b'" by auto
  show ?thesis
    using r handleUpdateNode_Inr(1,2) [OF r] s cur
    by (simp add: trackStatusChange_def)
qed

text \<open>
  When the node is not among the loaded nodes, the handler returns all the same: the rows
  of the store with the id take the new status, and there is no new StatusChange row and
  no new status-change event.
\<close>

lemma handleUpdateNode_skips_unloaded_node:
  assumes s: "u_statusId updates = Some s" "s \<in> sg_id ` set (statuses (b_db b))"
    and cur: "find (\<lambda>n. n_id n = ident) (b_dbNodes b) = None"
  shows "\<exists>b'. handleUpdateNode uuid now ident updates b = Inr b'
      \<and> statusChanges (b_db b') = statusChanges (b_db b)
      \<and> filter (\<lambda>ev. ev_eventType ev = StatusChangeEv) (events (b_db b'))
        = filter (\<lambda>ev. ev_eventType ev = StatusChangeEv) (events (b_db b))
      \<and> nodes (b_db b')
        = map (\<lambda>n. if n_id n = ident then applyPatch (updates\<lparr>u_updatedAt := Some now\<rparr>) n else n)
            (nodes (b_db b))
      \<and> n_statusId (applyPatch (updates\<lparr>u_updatedAt := Some now\<rparr>) n) = s"
proof -
  from handleUpdateNode_returns [of updates b uuid now ident] s
  obtain b' where r: "handleUpdateNode uuid now ident updates b = Inr b'" by auto
  have "n_statusId (applyPatch (updates\<lparr>u_updatedAt := Some now\<rparr>) n) = s"
    using s(1) by (simp add: applyPatch_def orOld_def)
  then show ?thesis
    using r handleUpdateNode_Inr [OF r] s cur
    by (simp add: trackStatusChange_def)
qed

text \<open>An empty statusId is not the id of a seeded status: the store stops the update of a node.\<close>

lemma handleUpdateNode_empty_status_rejected:
  "handleUpdateNode unaryUuid 7 ''a'' (noPatch\<lparr>u_statusId := Some []\<rparr>) boardSelected
   = Inl (ForeignKeyViolation boardSelected)"
  by (simp add: handleUpdateNode_def nodesUpdate_def trackStatusChange_def trackNoteUpdate_def Let_def
      noPatch_def boardSelected_def boardOpened_def loadData_def onNodeClick_def nestedDb_def
      emptyDb_def DEFAULT_STATUSES_def mkNode_def)

text \<open>
  C8. On the whiteboard of r the node a is clicked and then drilled into: the canvas now
  shows the inside of a, and a is still the selected node. The status shortcut then sets a
  to blocked: the handler returns, the row of a in the store goes from running to blocked,
  and no StatusChange row and no event is written. The same shortcut before the drill-down,
  with a among the loaded nodes, writes both rows.
\<close>

theorem handleShortcutStatus_stale_selection_unlogged:
  "b_selectedNodeId boardDrilled = Some ''a''
   \<and> map n_id (b_dbNodes boardDrilled) = [''k'']
   \<and> map (\<lambda>n. (n_id n, n_statusId n)) (nodes (b_db boardDrilled))
     = [(''r'', ''running''), (''a'', ''running''), (''k'', ''running'')]
   \<and> statusAndLogs (handleShortcutStatus unaryUuid 7 ''blocked'' boardDrilled)
     = Some ([(''r'', ''running''), (''a'', ''blocked''), (''k'', ''running'')], [], [])
   \<and> statusAndLogs (handleShortcutStatus unaryUuid 7 ''blocked'' boardSelected)
     = Some ([(''r'', ''running''), (''a'', ''blocked''), (''k'', ''running'')],
             [\<lparr>sc_id = ''u'', sc_machineNodeId = ''a'', sc_fromStatusId = ''running'',
               sc_toStatusId = ''blocked'', sc_changedAt = 7\<rparr>],
             [\<lparr>ev_id = ''u+'', ev_nodeId = ''a'', ev_eventType = StatusChangeEv, ev_timestamp = 7,
               ev_previousValue = Some ''running'', ev_newValue = Some ''blocked'',
               ev_metadata = None\<rparr>])"
  by (simp add: statusAndLogs_def handleShortcutStatus_def handleUpdateNode_def nodesUpdate_def
      trackStatusChange_def trackNoteUpdate_def Let_def noPatch_def applyPatch_def orOld_def
      boardDrilled_def boardSelected_def boardOpened_def loadData_def onNodeClick_def onDrillDown_def
      nestedDb_def emptyDb_def DEFAULT_STATUSES_def mkNode_def unaryUuid_def)

section \<open>Claims about the history tracker\<close>







lemma sliceLast_short: "length xs \<le> n \<Longrightarrow> sliceLast n xs = xs"
  by (simp add: sliceLast_def)

lemma sliceLast_idem: "sliceLast n (sliceLast n xs) = sliceLast n xs"
  by (simp add: sliceLast_def)












end
